theory Spec2Isabelle
  imports Complex_Main
begin

section \<open>Data model of the game screen\<close>

text \<open>
  JavaScript numbers are modelled as real numbers (times in seconds, coordinates), so
  rounding and overflow are outside the model; the numbers that are not finite appear
  only in the second embedding of the layout, further down.
  The field names follow \<^verbatim>\<open>GameScreen.tsx\<close>; the fields \<^verbatim>\<open>id\<close>, \<^verbatim>\<open>x\<close> and
  \<^verbatim>\<open>y\<close> of a node are written \<open>id_n\<close>, \<open>x_n\<close> and \<open>y_n\<close>.
\<close>

record BackendWordNode =
  id_n :: string
  word :: string
  parent_id :: "string option"

record WordNode = BackendWordNode +
  x_n :: real
  y_n :: real

text \<open>
  \<^verbatim>\<open>GameState\<close> and \<^verbatim>\<open>BackendGameState\<close> differ only in the type of \<^verbatim>\<open>nodes\<close>.
  A backend record of nodes is modelled by the sequence \<^verbatim>\<open>Object.values\<close> gives for it,
  the only way the layout reads it.
\<close>

record 'ns GameState_of =
  game_id :: string
  puzzle_id :: string
  start_word :: string
  theme :: string
  time_limit_seconds :: real
  start_time :: "real option"
  nodes :: 'ns
  connections :: "(string \<times> string) list"
  score :: real
  is_active :: bool

type_synonym GameState = "(string \<rightharpoonup> WordNode) GameState_of"
type_synonym BackendGameState = "BackendWordNode list GameState_of"

text \<open>The React state of the \<^verbatim>\<open>GameScreen\<close> component.\<close>

record Component =
  gameState :: "GameState option"
  selectedNodeId :: "string option"
  newWord :: string
  error :: "string option"
  isLoading :: bool
  timeLeft :: "int option"

section \<open>The session clock\<close>

text \<open>
  \<^verbatim>\<open>gameState.start_time || now\<close>: a start time that is null, undefined or \<open>0\<close> is
  falsy and replaced by \<open>now\<close>.
\<close>

definition start_time_or :: "real option \<Rightarrow> real \<Rightarrow> real" where
  "start_time_or st now = (case st of None \<Rightarrow> now | Some s \<Rightarrow> if s = 0 then now else s)"

text \<open>The local \<^verbatim>\<open>remaining\<close> of \<^verbatim>\<open>calculateTimeLeft\<close>, at the instant \<open>now\<close> (in seconds).\<close>

definition remaining :: "'ns GameState_of \<Rightarrow> real \<Rightarrow> real" where
  "remaining gs now =
     (let elapsed = now - start_time_or (start_time gs) now
      in max 0 (time_limit_seconds gs - elapsed))"

text \<open>\<^verbatim>\<open>Math.round\<close> rounds to the nearest integer, halves upwards.\<close>

definition math_round :: "real \<Rightarrow> int" where
  "math_round r = \<lfloor>r + 1 / 2\<rfloor>"

text \<open>
  \<^verbatim>\<open>calculateTimeLeft\<close>: \<open>gs\<close> is the \<^verbatim>\<open>gameState\<close> captured by the closure, \<open>c\<close> the
  component state the two setters act on (\<^verbatim>\<open>setGameState\<close> gets an updater of the
  current value).
\<close>

definition calculateTimeLeft :: "real \<Rightarrow> GameState \<Rightarrow> Component \<Rightarrow> Component" where
  "calculateTimeLeft now gs c =
     (let c1 = c\<lparr>timeLeft := Some (math_round (remaining gs now))\<rparr>
      in if remaining gs now \<le> 0 \<and> is_active gs
         then c1\<lparr>gameState := map_option (\<lambda>prev. prev\<lparr>is_active := False\<rparr>) (gameState c1)\<rparr>
         else c1)"

text \<open>
  The timer effect, run at \<open>now\<close>: the guard, then the initial call of
  \<^verbatim>\<open>calculateTimeLeft\<close>. A limit of \<open>0\<close> and a start time of \<open>0\<close> are falsy.
\<close>

definition timer_effect :: "real \<Rightarrow> Component \<Rightarrow> Component" where
  "timer_effect now c =
     (case gameState c of
        None \<Rightarrow> c\<lparr>timeLeft := None\<rparr>
      | Some gs \<Rightarrow>
          if \<not> is_active gs \<or> start_time gs = None \<or> start_time gs = Some 0
             \<or> time_limit_seconds gs = 0
          then c\<lparr>timeLeft := None\<rparr>
          else calculateTimeLeft now gs c)"

text \<open>
  The sessions for which the timer effect passes its guard and computes a remaining time:
  active, with a start time and a limit that are not falsy.
\<close>

definition timer_runs :: "'ns GameState_of \<Rightarrow> bool" where
  "timer_runs gs =
     (is_active gs \<and> start_time gs \<noteq> None \<and> start_time gs \<noteq> Some 0
      \<and> time_limit_seconds gs \<noteq> 0)"

section \<open>The layout engine\<close>

definition NODE_OFFSET_X :: real where "NODE_OFFSET_X = 100"
definition NODE_OFFSET_Y :: real where "NODE_OFFSET_Y = 50"
definition NODE_AREA_WIDTH :: real where "NODE_AREA_WIDTH = 500"
definition NODE_AREA_HEIGHT :: real where "NODE_AREA_HEIGHT = 400"

text \<open>\<^verbatim>\<open>{ ...node, x: vx, y: vy }\<close>\<close>

definition with_position :: "BackendWordNode \<Rightarrow> real \<Rightarrow> real \<Rightarrow> WordNode" where
  "with_position node vx vy = BackendWordNode.extend node (WordNode.fields vx vy)"

text \<open>
  The optional argument \<^verbatim>\<open>existingNodes\<close> and the reads
  \<^verbatim>\<open>existingNodes?.[id]?.x ?? v\<close> and \<^verbatim>\<open>existingNodes?.[id]?.y ?? v\<close>.
\<close>

type_synonym existing = "(string \<rightharpoonup> WordNode) option"

definition existing_node :: "existing \<Rightarrow> string \<Rightarrow> WordNode option" where
  "existing_node ex k = (case ex of None \<Rightarrow> None | Some m \<Rightarrow> m k)"

definition existing_x_or :: "existing \<Rightarrow> string \<Rightarrow> real \<Rightarrow> real" where
  "existing_x_or ex k v = (case existing_node ex k of None \<Rightarrow> v | Some w \<Rightarrow> x_n w)"

definition existing_y_or :: "existing \<Rightarrow> string \<Rightarrow> real \<Rightarrow> real" where
  "existing_y_or ex k v = (case existing_node ex k of None \<Rightarrow> v | Some w \<Rightarrow> y_n w)"

text \<open>
  \<^verbatim>\<open>!n.parent_id\<close>: an absent, null or empty parent id is falsy. The root is the first
  such node of \<^verbatim>\<open>nodesToProcess\<close>.
\<close>

definition no_parent :: "BackendWordNode \<Rightarrow> bool" where
  "no_parent n = (parent_id n = None \<or> parent_id n = Some [])"

definition find_root :: "BackendWordNode list \<Rightarrow> BackendWordNode option" where
  "find_root nodesToProcess = find no_parent nodesToProcess"

text \<open>
  The branch taken when no root is found: the nodes in a row from \<open>(50, 50)\<close>, one every
  \<open>100\<close>; \<open>currentX\<close> advances for every node, placed afresh or not.
\<close>

fun place_in_row ::
  "existing \<Rightarrow> BackendWordNode list \<Rightarrow> real \<Rightarrow> real \<Rightarrow> (string \<rightharpoonup> WordNode)
     \<Rightarrow> (string \<rightharpoonup> WordNode)" where
  "place_in_row ex [] currentX currentY positionedNodes = positionedNodes"
| "place_in_row ex (node # rest) currentX currentY positionedNodes =
     place_in_row ex rest (currentX + 100) currentY
       (positionedNodes(id_n node \<mapsto>
          with_position node (existing_x_or ex (id_n node) currentX)
            (existing_y_or ex (id_n node) currentY)))"

text \<open>The entries of the breadth-first queue and the state of the traversal.\<close>

record queue_entry =
  nodeId :: string
  parentX :: real
  parentY :: real
  depth :: nat

record layout_state =
  positionedNodes :: "string \<rightharpoonup> WordNode"
  assigned :: "string set"
  queue :: "queue_entry list"
  head :: nat

text \<open>
  The body of the \<^verbatim>\<open>for (const child of children)\<close> loop for a child that is not
  assigned yet: \<open>e\<close> is the dequeued entry.
\<close>

definition place_child ::
  "existing \<Rightarrow> queue_entry \<Rightarrow> nat \<Rightarrow> nat \<Rightarrow> BackendWordNode \<Rightarrow> layout_state
     \<Rightarrow> layout_state" where
  "place_child ex e childrenCount childIndex child s =
     (let angle = (pi / real (childrenCount + 1)) * real (childIndex + 1);
          offsetX = cos angle * NODE_OFFSET_X * real (depth e + 1) * 0.5;
          offsetY = sin angle * NODE_OFFSET_Y * 1.5;
          childX = parentX e + offsetX;
          childY = parentY e + offsetY
      in s\<lparr>positionedNodes := (positionedNodes s)(id_n child \<mapsto>
              with_position child (existing_x_or ex (id_n child) childX)
                (existing_y_or ex (id_n child) childY)),
            assigned := insert (id_n child) (assigned s),
            queue := queue s @
              [\<lparr>nodeId = id_n child, parentX = childX, parentY = childY,
                depth = depth e + 1\<rparr>]\<rparr>)"

text \<open>The loop itself, with \<open>childrenCount\<close> and the running \<open>childIndex\<close>.\<close>

fun place_children ::
  "existing \<Rightarrow> queue_entry \<Rightarrow> nat \<Rightarrow> BackendWordNode list \<Rightarrow> nat \<Rightarrow> layout_state
     \<Rightarrow> layout_state" where
  "place_children ex e childrenCount [] childIndex s = s"
| "place_children ex e childrenCount (child # rest) childIndex s =
     (if id_n child \<notin> assigned s
      then place_children ex e childrenCount rest (childIndex + 1)
             (place_child ex e childrenCount childIndex child s)
      else place_children ex e childrenCount rest childIndex s)"

definition children_of :: "BackendWordNode list \<Rightarrow> string \<Rightarrow> BackendWordNode list" where
  "children_of nodesToProcess k = filter (\<lambda>n. parent_id n = Some k) nodesToProcess"

text \<open>One turn of the \<^verbatim>\<open>while (head < queue.length)\<close> loop, for a state with \<open>head\<close> in range.\<close>

definition bfs_step :: "BackendWordNode list \<Rightarrow> existing \<Rightarrow> layout_state \<Rightarrow> layout_state" where
  "bfs_step nodesToProcess ex s =
     (let e = queue s ! head s;
          children = children_of nodesToProcess (nodeId e)
      in place_children ex e (length children) children 0 (s\<lparr>head := head s + 1\<rparr>))"

lemma place_child_fields:
  "head (place_child ex e cc ci c s) = head s"
  "assigned (place_child ex e cc ci c s) = insert (id_n c) (assigned s)"
  "length (queue (place_child ex e cc ci c s)) = length (queue s) + 1"
  by (simp_all add: place_child_def Let_def)

lemma place_children_measure:
  "set cs \<subseteq> set ns \<Longrightarrow>
     head (place_children ex e cc cs ci s) = head s \<and>
     length (queue s) \<le> length (queue (place_children ex e cc cs ci s)) \<and>
     card (id_n ` set ns - assigned (place_children ex e cc cs ci s))
       + length (queue (place_children ex e cc cs ci s))
     = card (id_n ` set ns - assigned s) + length (queue s)"
proof (induction cs arbitrary: ci s)
  case Nil
  then show ?case by simp
next
  case (Cons c cs)
  show ?case
  proof (cases "id_n c \<in> assigned s")
    case True
    with Cons show ?thesis by simp
  next
    case False
    let ?s' = "place_child ex e cc ci c s"
    have sub: "set cs \<subseteq> set ns" using Cons.prems by simp
    have mem: "id_n c \<in> id_n ` set ns - assigned s"
      using Cons.prems False by auto
    have fin: "finite (id_n ` set ns - assigned s)" by simp
    have "id_n ` set ns - assigned ?s' = (id_n ` set ns - assigned s) - {id_n c}"
      by (auto simp: place_child_fields)
    then have "card (id_n ` set ns - assigned ?s')
                 = card ((id_n ` set ns - assigned s) - {id_n c})"
      by simp
    with card_Suc_Diff1 [OF fin mem]
    have card: "card (id_n ` set ns - assigned ?s') + 1 = card (id_n ` set ns - assigned s)"
      by simp
    from Cons.IH [OF sub, of "ci + 1" ?s'] False card show ?thesis
      by (simp add: place_child_fields)
  qed
qed

function bfs_loop :: "BackendWordNode list \<Rightarrow> existing \<Rightarrow> layout_state \<Rightarrow> layout_state" where
  "bfs_loop nodesToProcess ex s =
     (if head s < length (queue s) then bfs_loop nodesToProcess ex (bfs_step nodesToProcess ex s)
      else s)"
  by pat_completeness auto
termination
proof (relation "measure (\<lambda>(ns, ex, s). card (id_n ` set ns - assigned s)
                     + (length (queue s) - head s))")
  show "wf (measure (\<lambda>(ns, ex, s). card (id_n ` set ns - assigned s)
                     + (length (queue s) - head s)))"
    by simp
next
  fix nodesToProcess :: "BackendWordNode list" and ex :: existing and s :: layout_state
  assume lt: "head s < length (queue s)"
  let ?e = "queue s ! head s"
  let ?cs = "children_of nodesToProcess (nodeId ?e)"
  let ?s1 = "s\<lparr>head := head s + 1\<rparr>"
  have sub: "set ?cs \<subseteq> set nodesToProcess" by (simp add: children_of_def)
  have eq: "bfs_step nodesToProcess ex s = place_children ex ?e (length ?cs) ?cs 0 ?s1"
    by (simp add: bfs_step_def Let_def)
  from place_children_measure [OF sub, of ex ?e "length ?cs" 0 ?s1] lt
  show "((nodesToProcess, ex, bfs_step nodesToProcess ex s), (nodesToProcess, ex, s))
          \<in> measure (\<lambda>(ns, ex, s). card (id_n ` set ns - assigned s)
                     + (length (queue s) - head s))"
    unfolding eq by simp
qed

declare bfs_loop.simps [simp del]

text \<open>
  \<^verbatim>\<open>Math.random()\<close> is a draw from a sequence \<open>rnd\<close> given by the environment; the
  counter says how many draws were made. \<^verbatim>\<open>??\<close> evaluates its right side, and so draws,
  only when the node has no existing position.
\<close>

fun place_missed ::
  "(nat \<Rightarrow> real) \<Rightarrow> existing \<Rightarrow> BackendWordNode list
     \<Rightarrow> (string \<rightharpoonup> WordNode) \<times> string set \<times> nat
     \<Rightarrow> (string \<rightharpoonup> WordNode) \<times> string set \<times> nat" where
  "place_missed rnd ex [] st = st"
| "place_missed rnd ex (node # rest) (positioned, assigned_ids, drawn) =
     (if id_n node \<notin> assigned_ids then
        (case existing_node ex (id_n node) of
           Some w \<Rightarrow>
             place_missed rnd ex rest
               (positioned(id_n node \<mapsto> with_position node (x_n w) (y_n w)),
                insert (id_n node) assigned_ids, drawn)
         | None \<Rightarrow>
             place_missed rnd ex rest
               (positioned(id_n node \<mapsto>
                  with_position node (rnd drawn * NODE_AREA_WIDTH)
                    (rnd (drawn + 1) * NODE_AREA_HEIGHT)),
                insert (id_n node) assigned_ids, drawn + 2))
      else place_missed rnd ex rest (positioned, assigned_ids, drawn))"

text \<open>The state before the loop: the root at the anchor, assigned and queued.\<close>

definition initial_state :: "BackendWordNode \<Rightarrow> layout_state" where
  "initial_state rootNodeBackend =
     (let rootX = NODE_AREA_WIDTH / 2; rootY = 50
      in \<lparr>positionedNodes = [id_n rootNodeBackend \<mapsto> with_position rootNodeBackend rootX rootY],
          assigned = {id_n rootNodeBackend},
          queue = [\<lparr>nodeId = id_n rootNodeBackend, parentX = rootX, parentY = rootY, depth = 0\<rparr>],
          head = 0\<rparr>)"

text \<open>The state when the \<^verbatim>\<open>while\<close> loop is left.\<close>

definition traversal :: "BackendWordNode list \<Rightarrow> existing \<Rightarrow> BackendWordNode \<Rightarrow> layout_state" where
  "traversal nodesToProcess ex rootNodeBackend =
     bfs_loop nodesToProcess ex (initial_state rootNodeBackend)"

definition assignPositionsToNodes ::
  "(nat \<Rightarrow> real) \<Rightarrow> BackendWordNode list \<Rightarrow> existing \<Rightarrow> (string \<rightharpoonup> WordNode)" where
  "assignPositionsToNodes rnd nodesToProcess existingNodes =
     (case find_root nodesToProcess of
        None \<Rightarrow> place_in_row existingNodes nodesToProcess 50 50 Map.empty
      | Some rootNodeBackend \<Rightarrow>
          (let s = traversal nodesToProcess existingNodes rootNodeBackend
           in fst (place_missed rnd existingNodes nodesToProcess
                     (positionedNodes s, assigned s, 0))))"

text \<open>Every entry other than the root's carries the existing coordinates of its key, if any.\<close>
definition keeps_existing :: "existing \<Rightarrow> string \<Rightarrow> WordNode \<Rightarrow> bool" where
  "keeps_existing ex k w' =
     (case existing_node ex k of None \<Rightarrow> True | Some w \<Rightarrow> x_n w' = x_n w \<and> y_n w' = y_n w)"

section \<open>Example data\<close>

text \<open>A session with the given limit, start time and activity flag, and an empty map.\<close>

definition session_example :: "real \<Rightarrow> real option \<Rightarrow> bool \<Rightarrow> GameState" where
  "session_example limit st act =
     \<lparr>game_id = ''g1'', puzzle_id = ''p1'', start_word = ''ocean'', theme = ''sea'',
      time_limit_seconds = limit, start_time = st, nodes = Map.empty, connections = [],
      score = 0, is_active = act\<rparr>"

text \<open>A backend node whose word is its id.\<close>

definition node_example :: "string \<Rightarrow> string option \<Rightarrow> BackendWordNode" where
  "node_example k p = \<lparr>id_n = k, word = k, parent_id = p\<rparr>"

text \<open>A root with two children and a grandchild, and the same with a node whose parent is missing.\<close>

definition ocean_nodes :: "BackendWordNode list" where
  "ocean_nodes =
     [node_example ''ocean'' None, node_example ''wave'' (Some ''ocean''),
      node_example ''tide'' (Some ''ocean''), node_example ''surf'' (Some ''wave'')]"

definition stray_nodes :: "BackendWordNode list" where
  "stray_nodes = ocean_nodes @ [node_example ''lost'' (Some ''nowhere'')]"

text \<open>Two sequences of random draws.\<close>

definition draws_low :: "nat \<Rightarrow> real" where
  "draws_low k = 0"

definition draws_mid :: "nat \<Rightarrow> real" where
  "draws_mid k = 1 / 2"

definition moved_root :: existing where
  "moved_root = Some [''ocean'' \<mapsto> with_position (node_example ''ocean'' None) 0 0]"

definition tide_moved :: existing where
  "tide_moved = Some [''tide'' \<mapsto> with_position (node_example ''tide'' (Some ''ocean'')) 7 9]"

text \<open>
  The ids reachable from the id \<open>k\<close> by parent links: \<open>k\<close> itself, and the id of every
  node whose parent id is reachable.
\<close>

inductive_set reachable_ids :: "BackendWordNode list \<Rightarrow> string \<Rightarrow> string set"
  for ns :: "BackendWordNode list" and k :: string where
  root: "k \<in> reachable_ids ns k"
| child: "p \<in> reachable_ids ns k \<Longrightarrow> n \<in> set ns \<Longrightarrow> parent_id n = Some p
            \<Longrightarrow> id_n n \<in> reachable_ids ns k"

text \<open>The children of every entry before head are assigned.\<close>

definition processed :: "BackendWordNode list \<Rightarrow> layout_state \<Rightarrow> bool" where
  "processed ns s =
     (head s \<le> length (queue s) \<and>
      (\<forall>i<head s. \<forall>n\<in>set ns. parent_id n = Some (nodeId (queue s ! i)) \<longrightarrow> id_n n \<in> assigned s))"

text \<open>
  Two states of the traversal that differ at most in the positions of the nodes that have
  an existing position.
\<close>

definition same_traversal :: "existing \<Rightarrow> layout_state \<Rightarrow> layout_state \<Rightarrow> bool" where
  "same_traversal ex s t =
     (queue s = queue t \<and> head s = head t \<and> assigned s = assigned t \<and>
      (\<forall>k. existing_node ex k = None \<longrightarrow> positionedNodes s k = positionedNodes t k))"

definition wave_moved :: existing where
  "wave_moved = Some [''wave'' \<mapsto> with_position (node_example ''wave'' (Some ''ocean'')) 7 9]"

text \<open>
  The placement of the \<open>k\<close>-th of \<open>n\<close> children of the node of the entry \<open>e\<close>: the
  coordinates computed for it, the node stored for it, and the entry queued for it.
\<close>

definition child_x :: "queue_entry \<Rightarrow> nat \<Rightarrow> nat \<Rightarrow> real" where
  "child_x e n k =
     parentX e + cos (pi / real (n + 1) * real (k + 1)) * 100 * real (depth e + 1) * 0.5"

definition child_y :: "queue_entry \<Rightarrow> nat \<Rightarrow> nat \<Rightarrow> real" where
  "child_y e n k = parentY e + sin (pi / real (n + 1) * real (k + 1)) * 50 * 1.5"

definition placed :: "existing \<Rightarrow> queue_entry \<Rightarrow> nat \<Rightarrow> nat \<Rightarrow> BackendWordNode \<Rightarrow> WordNode" where
  "placed ex e n k c =
     with_position c (existing_x_or ex (id_n c) (child_x e n k))
       (existing_y_or ex (id_n c) (child_y e n k))"

definition child_entry :: "queue_entry \<Rightarrow> nat \<Rightarrow> nat \<Rightarrow> BackendWordNode \<Rightarrow> queue_entry" where
  "child_entry e n k c =
     \<lparr>nodeId = id_n c, parentX = child_x e n k, parentY = child_y e n k, depth = depth e + 1\<rparr>"

definition children_placed ::
  "BackendWordNode list \<Rightarrow> existing \<Rightarrow> queue_entry \<Rightarrow> layout_state \<Rightarrow> bool" where
  "children_placed ns ex e s =
     (\<forall>k<length (children_of ns (nodeId e)).
        positionedNodes s (id_n (children_of ns (nodeId e) ! k))
          = Some (placed ex e (length (children_of ns (nodeId e))) k (children_of ns (nodeId e) ! k))
        \<and> child_entry e (length (children_of ns (nodeId e))) k (children_of ns (nodeId e) ! k)
            \<in> set (queue s))"

text \<open>The shape of the queue, and the invariant of the traversal of a tree.\<close>

definition queue_inv :: "BackendWordNode list \<Rightarrow> layout_state \<Rightarrow> bool" where
  "queue_inv ns s =
     (dom (positionedNodes s) = assigned s \<and> nodeId ` set (queue s) = assigned s \<and>
      distinct (map nodeId (queue s)) \<and> assigned s \<subseteq> id_n ` set ns)"

definition tree_inv ::
  "BackendWordNode list \<Rightarrow> existing \<Rightarrow> BackendWordNode \<Rightarrow> layout_state \<Rightarrow> bool" where
  "tree_inv ns ex r s =
     (queue_inv ns s \<and> head s \<le> length (queue s) \<and>
      (\<forall>n\<in>set ns. id_n n \<in> assigned s \<longrightarrow>
         id_n n = id_n r \<or> (\<exists>i<head s. parent_id n = Some (nodeId (queue s ! i)))) \<and>
      (\<forall>i<head s. children_placed ns ex (queue s ! i) s))"

text \<open>A root with three children.\<close>

definition fan_nodes :: "BackendWordNode list" where
  "fan_nodes =
     [node_example ''ocean'' None, node_example ''wave'' (Some ''ocean''),
      node_example ''tide'' (Some ''ocean''), node_example ''reef'' (Some ''ocean'')]"

section \<open>Connection proposals\<close>

text \<open>
  \<^verbatim>\<open>String.prototype.trim\<close> on strings of code units below 256: the white space and
  line terminators in that range are stripped at both ends.
\<close>

definition is_space :: "char \<Rightarrow> bool" where
  "is_space ch = (ch \<in> set [CHR 0x09, CHR 0x0A, CHR 0x0B, CHR 0x0C, CHR 0x0D, CHR 0x20, CHR 0xA0])"

definition trim :: "string \<Rightarrow> string" where
  "trim s = rev (dropWhile is_space (rev (dropWhile is_space s)))"

text \<open>A number in a template literal: the decimal digits of a natural number.\<close>

fun string_of_nat :: "nat \<Rightarrow> string" where
  "string_of_nat n =
     (if n < 10 then [''0123456789'' ! n]
      else string_of_nat (n div 10) @ [''0123456789'' ! (n mod 10)])"

declare string_of_nat.simps [simp del]

text \<open>The body of the \<^verbatim>\<open>POST\<close> to \<^verbatim>\<open>/games/{game_id}/connect\<close>, with the game it goes to.\<close>

record connect_request =
  request_game_id :: string
  parent_node_id :: string
  new_word :: string

text \<open>
  What the awaited \<^verbatim>\<open>fetch\<close> and \<^verbatim>\<open>response.json()\<close> can give: a response that is
  \<^verbatim>\<open>ok\<close> with the backend's state, a response that is not, with its status and the
  \<^verbatim>\<open>detail\<close> of its body, or an exception (with the message of the \<^verbatim>\<open>Error\<close>, if it
  is one).
\<close>

datatype response =
    Ok_response BackendGameState
  | Error_response nat "string option"
  | Thrown "string option"

text \<open>
  \<^verbatim>\<open>handleAddConnection\<close> up to its \<^verbatim>\<open>await\<close>: the guard, the two setters and the
  request. The result is the component and, when a request is issued, the request with
  the \<^verbatim>\<open>gameState\<close> the closure holds for the rest of the handler.
\<close>

definition submit_begin :: "Component \<Rightarrow> Component \<times> (GameState \<times> connect_request) option" where
  "submit_begin c =
     (case (gameState c, selectedNodeId c) of
        (Some gs, Some sel) \<Rightarrow>
          if sel = [] \<or> trim (newWord c) = [] \<or> \<not> is_active gs
          then (c\<lparr>error := Some
                  ''Cannot add connection: Game not active, no node selected, or word is empty.''\<rparr>,
                None)
          else (c\<lparr>isLoading := True, error := None\<rparr>,
                Some (gs, \<lparr>request_game_id = game_id gs, parent_node_id = sel,
                           new_word = trim (newWord c)\<rparr>))
      | _ \<Rightarrow>
          (c\<lparr>error := Some
              ''Cannot add connection: Game not active, no node selected, or word is empty.''\<rparr>,
           None))"

text \<open>\<^verbatim>\<open>errorData.detail || `HTTP error! status: ${response.status}`\<close>\<close>

definition error_message :: "nat \<Rightarrow> string option \<Rightarrow> string" where
  "error_message status detail =
     (case detail of
        Some d \<Rightarrow> if d = [] then ''HTTP error! status: '' @ string_of_nat status else d
      | None \<Rightarrow> ''HTTP error! status: '' @ string_of_nat status)"

text \<open>\<^verbatim>\<open>{ ...updatedBackendState, nodes: updatedPositionedNodes }\<close>\<close>

definition with_nodes :: "BackendGameState \<Rightarrow> (string \<rightharpoonup> WordNode) \<Rightarrow> GameState" where
  "with_nodes b positioned =
     \<lparr>game_id = game_id b, puzzle_id = puzzle_id b, start_word = start_word b,
      theme = theme b, time_limit_seconds = time_limit_seconds b, start_time = start_time b,
      nodes = positioned, connections = connections b, score = score b,
      is_active = is_active b\<rparr>"

text \<open>
  The handler after its \<^verbatim>\<open>await\<close>: \<open>gs\<close> is the \<^verbatim>\<open>gameState\<close> of the closure, \<open>c\<close>
  the component when the response arrives. The \<^verbatim>\<open>catch\<close> and \<^verbatim>\<open>finally\<close> blocks are
  part of each branch.
\<close>

definition submit_end :: "GameState \<Rightarrow> response \<Rightarrow> (nat \<Rightarrow> real) \<Rightarrow> Component \<Rightarrow> Component" where
  "submit_end gs resp rnd c =
     (case resp of
        Thrown msg \<Rightarrow>
          c\<lparr>error := Some (case msg of Some m \<Rightarrow> m | None \<Rightarrow> ''Failed to add connection''),
            isLoading := False\<rparr>
      | Error_response status detail \<Rightarrow>
          (let c1 = (if status = 400 \<and> detail = Some ''Time limit exceeded''
                     then c\<lparr>gameState :=
                            map_option (\<lambda>prev. prev\<lparr>is_active := False\<rparr>) (gameState c)\<rparr>
                     else c)
           in c1\<lparr>error := Some (error_message status detail), isLoading := False\<rparr>)
      | Ok_response updatedBackendState \<Rightarrow>
          (let updatedPositionedNodes =
                 assignPositionsToNodes rnd (nodes updatedBackendState) (Some (nodes gs))
           in c\<lparr>gameState := Some (with_nodes updatedBackendState updatedPositionedNodes),
                newWord := [], isLoading := False\<rparr>))"

text \<open>
  The handler run without interruption: the response \<open>backend\<close> gives to the request is
  applied before anything else happens. The second component lists the requests issued.
\<close>

definition handleAddConnection ::
  "(connect_request \<Rightarrow> response) \<Rightarrow> (nat \<Rightarrow> real) \<Rightarrow> Component
     \<Rightarrow> Component \<times> connect_request list" where
  "handleAddConnection backend rnd c =
     (case submit_begin c of
        (c1, None) \<Rightarrow> (c1, [])
      | (c1, Some (gs, req)) \<Rightarrow> (submit_end gs (backend req) rnd c1, [req]))"

text \<open>The click on a node of the map.\<close>

definition node_click :: "string \<Rightarrow> Component \<Rightarrow> Component" where
  "node_click k c =
     (case gameState c of
        Some gs \<Rightarrow> if is_active gs then c\<lparr>selectedNodeId := Some k\<rparr> else c
      | None \<Rightarrow> c)"

text \<open>
  The screen with the requests that are awaited, and what can happen to it: the timer
  effect runs, an interval of the timer fires with the \<^verbatim>\<open>gameState\<close> of its closure,
  a node is clicked, the input changes, the form is submitted, an awaited request is
  answered.
\<close>

record Screen =
  component :: Component
  in_flight :: "(GameState \<times> connect_request) list"

datatype event =
    Effect real
  | Interval real GameState
  | Click string
  | Input_change string
  | Submit_form
  | Answer nat response "nat \<Rightarrow> real"

fun step :: "event \<Rightarrow> Screen \<Rightarrow> Screen" where
  "step (Effect now) a = a\<lparr>component := timer_effect now (component a)\<rparr>"
| "step (Interval now gs) a = a\<lparr>component := calculateTimeLeft now gs (component a)\<rparr>"
| "step (Click k) a = a\<lparr>component := node_click k (component a)\<rparr>"
| "step (Input_change w) a = a\<lparr>component := (component a)\<lparr>newWord := w\<rparr>\<rparr>"
| "step Submit_form a =
     (case submit_begin (component a) of
        (c1, None) \<Rightarrow> a\<lparr>component := c1\<rparr>
      | (c1, Some p) \<Rightarrow> \<lparr>component = c1, in_flight = in_flight a @ [p]\<rparr>)"
| "step (Answer i resp rnd) a =
     (if i < length (in_flight a)
      then \<lparr>component = submit_end (fst (in_flight a ! i)) resp rnd (component a),
            in_flight = take i (in_flight a) @ drop (Suc i) (in_flight a)\<rparr>
      else a)"

text \<open>The events in their order.\<close>

fun run :: "event list \<Rightarrow> Screen \<Rightarrow> Screen" where
  "run [] a = a"
| "run (ev # evs) a = run evs (step ev a)"

text \<open>A response that is \<^verbatim>\<open>ok\<close>, and the rejection for a session whose time is over.\<close>

definition accepted :: "response \<Rightarrow> bool" where
  "accepted resp = (case resp of Ok_response b \<Rightarrow> True | _ \<Rightarrow> False)"

definition time_limit_exceeded :: "response \<Rightarrow> bool" where
  "time_limit_exceeded resp = (resp = Error_response 400 (Some ''Time limit exceeded''))"

text \<open>Examples: a component with a word typed in, a backend state, two backends.\<close>

definition component_example :: "GameState \<Rightarrow> Component" where
  "component_example g =
     \<lparr>gameState = Some g, selectedNodeId = Some ''ocean'', newWord = '' wave '',
      error = None, isLoading = False, timeLeft = None\<rparr>"

definition backend_state_example :: BackendGameState where
  "backend_state_example =
     \<lparr>game_id = ''g1'', puzzle_id = ''p1'', start_word = ''ocean'', theme = ''sea'',
      time_limit_seconds = 60, start_time = Some 1000, nodes = ocean_nodes,
      connections = [(''ocean'', ''wave'')], score = 1, is_active = True\<rparr>"

definition backend_time_up :: "connect_request \<Rightarrow> response" where
  "backend_time_up req = Error_response 400 (Some ''Time limit exceeded'')"

definition screen_example :: Screen where
  "screen_example =
     \<lparr>component = component_example (session_example 60 (Some 1000) True), in_flight = []\<rparr>"

definition screen_expired :: Screen where
  "screen_expired =
     \<lparr>component = component_example (session_example 60 (Some 1000) False), in_flight = []\<rparr>"

section \<open>The game board\<close>

text \<open>
  The nodes and edges of \<^verbatim>\<open>Gameboard.tsx\<close>: a node is
  \<^verbatim>\<open>{ id, data: { label }, position: { x, y }, type }\<close>, an edge
  \<^verbatim>\<open>{ id, source, target }\<close>; their ids are written \<open>id_b\<close> and \<open>edge_id\<close>, the type
  \<open>type_b\<close>.
\<close>

record flow_node =
  id_b :: string
  label :: string
  position :: "real \<times> real"
  type_b :: string

record flow_edge =
  edge_id :: string
  source :: string
  target :: string

text \<open>
  The state \<^verbatim>\<open>handleAddNode\<close> works on: the nodes and edges of the component, the
  counter \<^verbatim>\<open>idCounter\<close> of the module, and the moves counter of the parent, reached
  through \<^verbatim>\<open>setMoves\<close>. Counters are integers.
\<close>

record Gameboard =
  nodes_b :: "flow_node list"
  edges_b :: "flow_edge list"
  idCounter :: nat
  moves :: int

text \<open>\<^verbatim>\<open>getNodeId\<close>: the new id and the incremented counter.\<close>

definition getNodeId :: "nat \<Rightarrow> string \<times> nat" where
  "getNodeId counter = (''node_'' @ string_of_nat (counter + 1), counter + 1)"

text \<open>
  \<^verbatim>\<open>handleAddNode\<close>, with the callback \<open>onNodeAdded\<close> of the parent and the two draws of
  \<^verbatim>\<open>Math.random\<close> made when the parent node is found.
\<close>

definition handleAddNode ::
  "(string \<Rightarrow> string \<Rightarrow> bool) \<Rightarrow> (nat \<Rightarrow> real) \<Rightarrow> string \<Rightarrow> string \<Rightarrow> Gameboard
     \<Rightarrow> Gameboard" where
  "handleAddNode onNodeAdded rnd newNodeLabel parentNodeId s =
     (let isValidConnection = onNodeAdded newNodeLabel parentNodeId
      in if isValidConnection then
           (let (newNodeId, counter) = getNodeId (idCounter s);
                parentNode = find (\<lambda>n. id_b n = parentNodeId) (nodes_b s);
                pos = (case parentNode of
                         Some p \<Rightarrow> (fst (position p) + (rnd 0 * 400 - 200),
                                    snd (position p) + 100 + rnd 1 * 50)
                       | None \<Rightarrow> (100, 100));
                newNode = \<lparr>id_b = newNodeId, label = newNodeLabel, position = pos,
                           type_b = ''mindMapNode''\<rparr>;
                newEdge = \<lparr>edge_id = ''edge_'' @ parentNodeId @ ''-'' @ newNodeId,
                           source = parentNodeId, target = newNodeId\<rparr>
            in s\<lparr>nodes_b := nodes_b s @ [newNode], edges_b := edges_b s @ [newEdge],
                 idCounter := counter, moves := moves s + 1\<rparr>)
         else s)"

text \<open>Examples: the board at its start, and a callback that refuses one word.\<close>

definition board_example :: Gameboard where
  "board_example =
     \<lparr>nodes_b = [\<lparr>id_b = ''StartNode'', label = ''ocean'', position = (250, 5),
                    type_b = ''mindMapNode''\<rparr>],
      edges_b = [], idCounter = 0, moves = 0\<rparr>"

definition refuses_rock :: "string \<Rightarrow> string \<Rightarrow> bool" where
  "refuses_rock newNodeLabel parentNodeId = (newNodeLabel \<noteq> ''rock'')"

section \<open>The layout over JavaScript numbers and objects\<close>

text \<open>
  For the entries and the numbers a caller finds in the result, the layout is embedded a
  second time, with the two things the embedding above leaves out.

  A coordinate read from \<^verbatim>\<open>existingNodes\<close> is any JavaScript number, also \<^verbatim>\<open>NaN\<close> or an
  infinity; \<^verbatim>\<open>??\<close> replaces only \<^verbatim>\<open>null\<close> and \<^verbatim>\<open>undefined\<close>. The coordinates the layout
  computes itself (from the constants, \<^verbatim>\<open>Math.cos\<close>, \<^verbatim>\<open>Math.sin\<close>, \<^verbatim>\<open>Math.random\<close> and the
  depth) are finite and stay reals.

  A record of nodes is a JavaScript object. The assignment \<^verbatim>\<open>o[k] = v\<close> of an object
  \<open>v\<close> under the key \<^verbatim>\<open>__proto__\<close> sets the prototype of \<open>o\<close> and creates no entry, and
  \<^verbatim>\<open>o['__proto__']\<close> reads the prototype; every other key is an entry of its own. What
  \<^verbatim>\<open>o[k]?.x\<close> finds through the prototype under another key is not an object with
  coordinates, so the read is \<^verbatim>\<open>undefined\<close>. \<^verbatim>\<open>Object.values\<close> gives the entries only.
\<close>

datatype number = Num real | NaN | Infinity | Neg_Infinity

definition is_finite :: "number \<Rightarrow> bool" where
  "is_finite v = (case v of Num r \<Rightarrow> True | _ \<Rightarrow> False)"

record WordNode_js = BackendWordNode +
  x_js :: number
  y_js :: number

record node_object =
  entries :: "string \<rightharpoonup> WordNode_js"
  prototype :: "WordNode_js option"

definition empty_object :: node_object where
  "empty_object = \<lparr>entries = Map.empty, prototype = None\<rparr>"

definition object_get :: "node_object \<Rightarrow> string \<Rightarrow> WordNode_js option" where
  "object_get o_js k = (if k = ''__proto__'' then prototype o_js else entries o_js k)"

definition object_set :: "node_object \<Rightarrow> string \<Rightarrow> WordNode_js \<Rightarrow> node_object" where
  "object_set o_js k v =
     (if k = ''__proto__'' then o_js\<lparr>prototype := Some v\<rparr>
      else o_js\<lparr>entries := (entries o_js)(k \<mapsto> v)\<rparr>)"

definition with_position_js :: "BackendWordNode \<Rightarrow> number \<Rightarrow> number \<Rightarrow> WordNode_js" where
  "with_position_js node vx vy = BackendWordNode.extend node (WordNode_js.fields vx vy)"

type_synonym existing_js = "node_object option"

definition existing_node_js :: "existing_js \<Rightarrow> string \<Rightarrow> WordNode_js option" where
  "existing_node_js ex k = (case ex of None \<Rightarrow> None | Some o_js \<Rightarrow> object_get o_js k)"

definition existing_x_or_js :: "existing_js \<Rightarrow> string \<Rightarrow> real \<Rightarrow> number" where
  "existing_x_or_js ex k v = (case existing_node_js ex k of None \<Rightarrow> Num v | Some w \<Rightarrow> x_js w)"

definition existing_y_or_js :: "existing_js \<Rightarrow> string \<Rightarrow> real \<Rightarrow> number" where
  "existing_y_or_js ex k v = (case existing_node_js ex k of None \<Rightarrow> Num v | Some w \<Rightarrow> y_js w)"

fun place_in_row_js ::
  "existing_js \<Rightarrow> BackendWordNode list \<Rightarrow> real \<Rightarrow> real \<Rightarrow> node_object \<Rightarrow> node_object" where
  "place_in_row_js ex [] currentX currentY positioned = positioned"
| "place_in_row_js ex (node # rest) currentX currentY positioned =
     place_in_row_js ex rest (currentX + 100) currentY
       (object_set positioned (id_n node)
          (with_position_js node (existing_x_or_js ex (id_n node) currentX)
            (existing_y_or_js ex (id_n node) currentY)))"

record layout_state_js =
  positionedNodes_js :: node_object
  assigned_js :: "string set"
  queue_js :: "queue_entry list"
  head_js :: nat

definition place_child_js ::
  "existing_js \<Rightarrow> queue_entry \<Rightarrow> nat \<Rightarrow> nat \<Rightarrow> BackendWordNode \<Rightarrow> layout_state_js
     \<Rightarrow> layout_state_js" where
  "place_child_js ex e childrenCount childIndex child s =
     (let angle = (pi / real (childrenCount + 1)) * real (childIndex + 1);
          offsetX = cos angle * NODE_OFFSET_X * real (depth e + 1) * 0.5;
          offsetY = sin angle * NODE_OFFSET_Y * 1.5;
          childX = parentX e + offsetX;
          childY = parentY e + offsetY
      in s\<lparr>positionedNodes_js := object_set (positionedNodes_js s) (id_n child)
              (with_position_js child (existing_x_or_js ex (id_n child) childX)
                (existing_y_or_js ex (id_n child) childY)),
            assigned_js := insert (id_n child) (assigned_js s),
            queue_js := queue_js s @
              [\<lparr>nodeId = id_n child, parentX = childX, parentY = childY,
                depth = depth e + 1\<rparr>]\<rparr>)"

fun place_children_js ::
  "existing_js \<Rightarrow> queue_entry \<Rightarrow> nat \<Rightarrow> BackendWordNode list \<Rightarrow> nat \<Rightarrow> layout_state_js
     \<Rightarrow> layout_state_js" where
  "place_children_js ex e childrenCount [] childIndex s = s"
| "place_children_js ex e childrenCount (child # rest) childIndex s =
     (if id_n child \<notin> assigned_js s
      then place_children_js ex e childrenCount rest (childIndex + 1)
             (place_child_js ex e childrenCount childIndex child s)
      else place_children_js ex e childrenCount rest childIndex s)"

definition bfs_step_js ::
  "BackendWordNode list \<Rightarrow> existing_js \<Rightarrow> layout_state_js \<Rightarrow> layout_state_js" where
  "bfs_step_js nodesToProcess ex s =
     (let e = queue_js s ! head_js s;
          children = children_of nodesToProcess (nodeId e)
      in place_children_js ex e (length children) children 0 (s\<lparr>head_js := head_js s + 1\<rparr>))"

lemma place_child_js_fields:
  "head_js (place_child_js ex e cc ci c s) = head_js s"
  "assigned_js (place_child_js ex e cc ci c s) = insert (id_n c) (assigned_js s)"
  "length (queue_js (place_child_js ex e cc ci c s)) = length (queue_js s) + 1"
  by (simp_all add: place_child_js_def Let_def)

lemma place_children_js_measure:
  "set cs \<subseteq> set ns \<Longrightarrow>
     head_js (place_children_js ex e cc cs ci s) = head_js s \<and>
     length (queue_js s) \<le> length (queue_js (place_children_js ex e cc cs ci s)) \<and>
     card (id_n ` set ns - assigned_js (place_children_js ex e cc cs ci s))
       + length (queue_js (place_children_js ex e cc cs ci s))
     = card (id_n ` set ns - assigned_js s) + length (queue_js s)"
proof (induction cs arbitrary: ci s)
  case Nil
  then show ?case by simp
next
  case (Cons c cs)
  show ?case
  proof (cases "id_n c \<in> assigned_js s")
    case True
    with Cons show ?thesis by simp
  next
    case False
    let ?s' = "place_child_js ex e cc ci c s"
    have sub: "set cs \<subseteq> set ns" using Cons.prems by simp
    have mem: "id_n c \<in> id_n ` set ns - assigned_js s"
      using Cons.prems False by auto
    have fin: "finite (id_n ` set ns - assigned_js s)" by simp
    have "id_n ` set ns - assigned_js ?s' = (id_n ` set ns - assigned_js s) - {id_n c}"
      by (auto simp: place_child_js_fields)
    then have "card (id_n ` set ns - assigned_js ?s')
                 = card ((id_n ` set ns - assigned_js s) - {id_n c})"
      by simp
    with card_Suc_Diff1 [OF fin mem]
    have card: "card (id_n ` set ns - assigned_js ?s') + 1 = card (id_n ` set ns - assigned_js s)"
      by simp
    from Cons.IH [OF sub, of "ci + 1" ?s'] False card show ?thesis
      by (simp add: place_child_js_fields)
  qed
qed

function bfs_loop_js ::
  "BackendWordNode list \<Rightarrow> existing_js \<Rightarrow> layout_state_js \<Rightarrow> layout_state_js" where
  "bfs_loop_js nodesToProcess ex s =
     (if head_js s < length (queue_js s)
      then bfs_loop_js nodesToProcess ex (bfs_step_js nodesToProcess ex s)
      else s)"
  by pat_completeness auto
termination
proof (relation "measure (\<lambda>(ns, ex, s). card (id_n ` set ns - assigned_js s)
                     + (length (queue_js s) - head_js s))")
  show "wf (measure (\<lambda>(ns, ex, s). card (id_n ` set ns - assigned_js s)
                     + (length (queue_js s) - head_js s)))"
    by simp
next
  fix nodesToProcess :: "BackendWordNode list" and ex :: existing_js and s :: layout_state_js
  assume lt: "head_js s < length (queue_js s)"
  let ?e = "queue_js s ! head_js s"
  let ?cs = "children_of nodesToProcess (nodeId ?e)"
  let ?s1 = "s\<lparr>head_js := head_js s + 1\<rparr>"
  have sub: "set ?cs \<subseteq> set nodesToProcess" by (simp add: children_of_def)
  have eq: "bfs_step_js nodesToProcess ex s = place_children_js ex ?e (length ?cs) ?cs 0 ?s1"
    by (simp add: bfs_step_js_def Let_def)
  from place_children_js_measure [OF sub, of ex ?e "length ?cs" 0 ?s1] lt
  show "((nodesToProcess, ex, bfs_step_js nodesToProcess ex s), (nodesToProcess, ex, s))
          \<in> measure (\<lambda>(ns, ex, s). card (id_n ` set ns - assigned_js s)
                     + (length (queue_js s) - head_js s))"
    unfolding eq by simp
qed

declare bfs_loop_js.simps [simp del]

fun place_missed_js ::
  "(nat \<Rightarrow> real) \<Rightarrow> existing_js \<Rightarrow> BackendWordNode list
     \<Rightarrow> node_object \<times> string set \<times> nat \<Rightarrow> node_object \<times> string set \<times> nat" where
  "place_missed_js rnd ex [] st = st"
| "place_missed_js rnd ex (node # rest) (positioned, assigned_ids, drawn) =
     (if id_n node \<notin> assigned_ids then
        (case existing_node_js ex (id_n node) of
           Some w \<Rightarrow>
             place_missed_js rnd ex rest
               (object_set positioned (id_n node) (with_position_js node (x_js w) (y_js w)),
                insert (id_n node) assigned_ids, drawn)
         | None \<Rightarrow>
             place_missed_js rnd ex rest
               (object_set positioned (id_n node)
                  (with_position_js node (Num (rnd drawn * NODE_AREA_WIDTH))
                    (Num (rnd (drawn + 1) * NODE_AREA_HEIGHT))),
                insert (id_n node) assigned_ids, drawn + 2))
      else place_missed_js rnd ex rest (positioned, assigned_ids, drawn))"

definition initial_state_js :: "BackendWordNode \<Rightarrow> layout_state_js" where
  "initial_state_js rootNodeBackend =
     (let rootX = NODE_AREA_WIDTH / 2; rootY = 50
      in \<lparr>positionedNodes_js = object_set empty_object (id_n rootNodeBackend)
            (with_position_js rootNodeBackend (Num rootX) (Num rootY)),
          assigned_js = {id_n rootNodeBackend},
          queue_js = [\<lparr>nodeId = id_n rootNodeBackend, parentX = rootX, parentY = rootY,
                       depth = 0\<rparr>],
          head_js = 0\<rparr>)"

definition assignPositionsToNodes_js ::
  "(nat \<Rightarrow> real) \<Rightarrow> BackendWordNode list \<Rightarrow> existing_js \<Rightarrow> node_object" where
  "assignPositionsToNodes_js rnd nodesToProcess existingNodes =
     (case find_root nodesToProcess of
        None \<Rightarrow> place_in_row_js existingNodes nodesToProcess 50 50 empty_object
      | Some rootNodeBackend \<Rightarrow>
          (let s = bfs_loop_js nodesToProcess existingNodes (initial_state_js rootNodeBackend)
           in fst (place_missed_js rnd existingNodes nodesToProcess
                     (positionedNodes_js s, assigned_js s, 0))))"

text \<open>
  What the check of a node's entry is about: the entry carries the id of its key, and
  its coordinates are finite unless the existing position of that id is not.
\<close>

definition entry_ok :: "existing_js \<Rightarrow> string \<Rightarrow> WordNode_js \<Rightarrow> bool" where
  "entry_ok ex k w =
     (id_n w = k \<and>
      ((\<forall>v. existing_node_js ex k = Some v \<longrightarrow> is_finite (x_js v) \<and> is_finite (y_js v))
         \<longrightarrow> is_finite (x_js w) \<and> is_finite (y_js w)))"

text \<open>Examples: a node with the id \<^verbatim>\<open>__proto__\<close>, and an existing position that is not a number.\<close>

definition proto_nodes :: "BackendWordNode list" where
  "proto_nodes = [node_example ''ocean'' None, node_example ''__proto__'' (Some ''ocean'')]"

definition wave_nan :: existing_js where
  "wave_nan =
     Some \<lparr>entries = [''wave'' \<mapsto> with_position_js (node_example ''wave'' (Some ''ocean'')) NaN (Num 9)],
           prototype = None\<rparr>"

section \<open>Remaining time\<close>

lemma remaining_nonneg: "0 \<le> remaining gs now"
  by (simp add: remaining_def Let_def)

lemma remaining_started:
  "start_time gs = Some s \<Longrightarrow> s \<noteq> 0 \<Longrightarrow>
     remaining gs now = max 0 (time_limit_seconds gs - (now - s))"
  by (simp add: remaining_def start_time_or_def)

lemma remaining_antimono: "t1 \<le> t2 \<Longrightarrow> remaining gs t2 \<le> remaining gs t1"
  by (auto simp: remaining_def start_time_or_def Let_def split: option.splits)

lemma timer_effect_runs:
  "gameState c = Some gs \<Longrightarrow>
     timer_effect now c
       = (if timer_runs gs then calculateTimeLeft now gs c else c\<lparr>timeLeft := None\<rparr>)"
  by (auto simp: timer_effect_def timer_runs_def)

lemma timer_runs_started:
  "timer_runs gs \<Longrightarrow> \<exists>s. start_time gs = Some s \<and> s \<noteq> 0"
  by (cases "start_time gs") (auto simp: timer_runs_def)

lemma calculateTimeLeft_timeLeft:
  "timeLeft (calculateTimeLeft now gs c) = Some (math_round (remaining gs now))"
  by (simp add: calculateTimeLeft_def Let_def)

section \<open>Invariants of the layout\<close>

lemma bfs_loop_invariant:
  assumes "P s"
    and "\<And>t. P t \<Longrightarrow> head t < length (queue t) \<Longrightarrow> P (bfs_step ns ex t)"
  shows "P (bfs_loop ns ex s)"
  using assms
proof (induction ns ex s rule: bfs_loop.induct)
  case (1 ns ex s)
  show ?case
  proof (cases "head s < length (queue s)")
    case True
    then have "P (bfs_step ns ex s)" using "1.prems" by blast
    with "1.IH" [OF True] "1.prems"(2) have "P (bfs_loop ns ex (bfs_step ns ex s))" by blast
    with True show ?thesis by (subst bfs_loop.simps) simp
  next
    case False
    with "1.prems"(1) show ?thesis by (subst bfs_loop.simps) simp
  qed
qed

lemma bfs_loop_exhausted: "length (queue (bfs_loop ns ex s)) \<le> head (bfs_loop ns ex s)"
proof (induction ns ex s rule: bfs_loop.induct)
  case (1 ns ex s)
  show ?case
  proof (cases "head s < length (queue s)")
    case True
    with "1.IH" show ?thesis by (subst (1 2) bfs_loop.simps) simp
  next
    case False
    then show ?thesis by (subst (1 2) bfs_loop.simps) simp
  qed
qed

lemma place_children_invariant:
  assumes "P s"
    and "\<And>c ci t. P t \<Longrightarrow> c \<in> set cs \<Longrightarrow> id_n c \<notin> assigned t
           \<Longrightarrow> P (place_child ex e cc ci c t)"
  shows "P (place_children ex e cc cs ci s)"
  using assms
proof (induction cs arbitrary: ci s)
  case Nil
  then show ?case by simp
next
  case (Cons c cs)
  show ?case
  proof (cases "id_n c \<in> assigned s")
    case True
    with Cons show ?thesis by simp
  next
    case False
    have "P (place_child ex e cc ci c s)" using Cons.prems False by simp
    then have "P (place_children ex e cc cs (ci + 1) (place_child ex e cc ci c s))"
      using Cons.IH Cons.prems(2) by simp
    with False show ?thesis by simp
  qed
qed

text \<open>An invariant of the traversal: kept by advancing head, and by placing a child of the
  entry before head.\<close>
lemma traversal_invariant:
  assumes init: "P (initial_state r)"
    and adv: "\<And>s. P s \<Longrightarrow> head s < length (queue s) \<Longrightarrow> P (s\<lparr>head := head s + 1\<rparr>)"
    and place: "\<And>s e c cc ci. P s \<Longrightarrow> c \<in> set ns \<Longrightarrow> parent_id c = Some (nodeId e)
           \<Longrightarrow> id_n c \<notin> assigned s \<Longrightarrow> P (place_child ex e cc ci c s)"
  shows "P (traversal ns ex r)"
  unfolding traversal_def
proof (rule bfs_loop_invariant [where P = P, OF init])
  fix t assume t: "P t" "head t < length (queue t)"
  show "P (bfs_step ns ex t)"
    unfolding bfs_step_def Let_def
  proof (rule place_children_invariant [where P = P])
    show "P (t\<lparr>head := head t + 1\<rparr>)" using adv t by blast
  next
    fix c ci u
    assume "P u" "c \<in> set (children_of ns (nodeId (queue t ! head t)))" "id_n c \<notin> assigned u"
    then show "P (place_child ex (queue t ! head t)
        (length (children_of ns (nodeId (queue t ! head t)))) ci c u)"
      using place [of u c "queue t ! head t"] by (simp add: children_of_def)
  qed
qed

lemma traversal_assigned_dom:
  "assigned (traversal ns ex r) = dom (positionedNodes (traversal ns ex r))"
  by (rule traversal_invariant [where P = "\<lambda>s. assigned s = dom (positionedNodes s)"])
     (auto simp: initial_state_def place_child_def Let_def)

lemma with_position_simps [simp]:
  "id_n (with_position n vx vy) = id_n n"
  "word (with_position n vx vy) = word n"
  "parent_id (with_position n vx vy) = parent_id n"
  "x_n (with_position n vx vy) = vx"
  "y_n (with_position n vx vy) = vy"
  by (simp_all add: with_position_def BackendWordNode.extend_def WordNode.fields_def)

lemma existing_or_Some [simp]:
  "existing_node ex k = Some w \<Longrightarrow> existing_x_or ex k v = x_n w"
  "existing_node ex k = Some w \<Longrightarrow> existing_y_or ex k v = y_n w"
  by (simp_all add: existing_x_or_def existing_y_or_def)

lemma existing_or_None [simp]:
  "existing_node ex k = None \<Longrightarrow> existing_x_or ex k v = v"
  "existing_node ex k = None \<Longrightarrow> existing_y_or ex k v = v"
  by (simp_all add: existing_x_or_def existing_y_or_def)

text \<open>The root stays at the anchor.\<close>
lemma traversal_root:
  "id_n r \<in> assigned (traversal ns ex r) \<and>
   positionedNodes (traversal ns ex r) (id_n r) = Some (with_position r 250 50)"
  by (rule traversal_invariant)
     (auto simp: initial_state_def place_child_def Let_def NODE_AREA_WIDTH_def)

lemma traversal_keeps_existing:
  "\<forall>k w'. positionedNodes (traversal ns ex r) k = Some w' \<longrightarrow> k \<noteq> id_n r \<longrightarrow> keeps_existing ex k w'"
  by (rule traversal_invariant)
     (auto simp: initial_state_def place_child_def Let_def keeps_existing_def split: option.splits)

lemma traversal_entry_id:
  "\<forall>k w'. positionedNodes (traversal ns ex r) k = Some w' \<longrightarrow> id_n w' = k"
  by (rule traversal_invariant)
     (auto simp: initial_state_def place_child_def Let_def split: if_splits)

lemma place_missed_kept:
  "k \<in> asg \<Longrightarrow> fst (place_missed rnd ex ns (pos, asg, d)) k = pos k"
proof (induction rnd ex ns "(pos, asg, d)" arbitrary: pos asg d rule: place_missed.induct)
  case (1 rnd ex st)
  then show ?case by simp
next
  case (2 rnd ex node rest positioned assigned_ids drawn)
  then show ?case by (auto split: option.splits)
qed

lemma place_missed_total:
  "asg \<subseteq> dom pos \<Longrightarrow> n \<in> set ns \<Longrightarrow> id_n n \<in> dom (fst (place_missed rnd ex ns (pos, asg, d)))"
proof (induction rnd ex ns "(pos, asg, d)" arbitrary: pos asg d rule: place_missed.induct)
  case (1 rnd ex st)
  then show ?case by simp
next
  case (2 rnd ex node rest positioned assigned_ids drawn)
  show ?case
  proof (cases "id_n node \<in> assigned_ids")
    case True
    with 2 show ?thesis by (auto simp: place_missed_kept)
  next
    case False
    with 2 show ?thesis
      by (cases "existing_node ex (id_n node)") (auto simp: place_missed_kept)
  qed
qed

lemma place_missed_pred:
  assumes "\<And>k w. pos k = Some w \<Longrightarrow> Q k w"
    and "\<And>n vx vy. n \<in> set ns \<Longrightarrow> existing_node ex (id_n n) = None
           \<Longrightarrow> Q (id_n n) (with_position n vx vy)"
    and "\<And>n w. n \<in> set ns \<Longrightarrow> existing_node ex (id_n n) = Some w
           \<Longrightarrow> Q (id_n n) (with_position n (x_n w) (y_n w))"
    and "fst (place_missed rnd ex ns (pos, asg, d)) k = Some w"
  shows "Q k w"
  using assms
proof (induction rnd ex ns "(pos, asg, d)" arbitrary: pos asg d rule: place_missed.induct)
  case (1 rnd ex st)
  then show ?case by simp
next
  case (2 rnd ex node rest positioned assigned_ids drawn)
  show ?case
  proof (cases "id_n node \<in> assigned_ids")
    case True
    with 2 show ?thesis by simp
  next
    case False
    show ?thesis
    proof (cases "existing_node ex (id_n node)")
      case None
      have "Q k w"
      proof (rule "2.hyps"(1) [OF False None])
        show "fst (place_missed rnd ex rest
            (positioned(id_n node \<mapsto> with_position node (rnd drawn * NODE_AREA_WIDTH)
               (rnd (drawn + 1) * NODE_AREA_HEIGHT)), insert (id_n node) assigned_ids, drawn + 2)) k = Some w"
          using "2.prems"(4) False None by simp
      qed (use "2.prems" None in \<open>auto split: if_splits\<close>)
      then show ?thesis .
    next
      case (Some a)
      have "Q k w"
      proof (rule "2.hyps"(2) [OF False Some])
        show "fst (place_missed rnd ex rest
            (positioned(id_n node \<mapsto> with_position node (x_n a) (y_n a)),
             insert (id_n node) assigned_ids, drawn)) k = Some w"
          using "2.prems"(4) False Some by simp
      qed (use "2.prems" Some in \<open>auto split: if_splits\<close>)
      then show ?thesis .
    qed
  qed
qed

lemma place_in_row_pred:
  assumes "\<And>k w. pos k = Some w \<Longrightarrow> Q k w"
    and "\<And>n vx vy. n \<in> set ns \<Longrightarrow> existing_node ex (id_n n) = None
           \<Longrightarrow> Q (id_n n) (with_position n vx vy)"
    and "\<And>n w. n \<in> set ns \<Longrightarrow> existing_node ex (id_n n) = Some w
           \<Longrightarrow> Q (id_n n) (with_position n (x_n w) (y_n w))"
    and "place_in_row ex ns cx cy pos k = Some w"
  shows "Q k w"
  using assms
proof (induction ns arbitrary: cx pos)
  case Nil
  then show ?case by simp
next
  case (Cons n ns)
  let ?w = "with_position n (existing_x_or ex (id_n n) cx) (existing_y_or ex (id_n n) cy)"
  have new: "Q (id_n n) ?w"
  proof (cases "existing_node ex (id_n n)")
    case None
    then show ?thesis using Cons.prems(2) [of n] by simp
  next
    case (Some a)
    then show ?thesis using Cons.prems(3) [of n a] by simp
  qed
  show ?case
  proof (rule Cons.IH [where pos = "pos(id_n n \<mapsto> ?w)" and cx = "cx + 100"])
    show "place_in_row ex ns (cx + 100) cy (pos(id_n n \<mapsto> ?w)) k = Some w"
      using Cons.prems(4) by simp
  next
    fix k' w' assume a: "(pos(id_n n \<mapsto> ?w)) k' = Some w'"
    show "Q k' w'"
    proof (cases "k' = id_n n")
      case True
      with a new show ?thesis by simp
    next
      case False
      with a Cons.prems(1) show ?thesis by simp
    qed
  next
    fix m vx vy assume "m \<in> set ns" "existing_node ex (id_n m) = None"
    then show "Q (id_n m) (with_position m vx vy)" using Cons.prems(2) by simp
  next
    fix m a assume "m \<in> set ns" "existing_node ex (id_n m) = Some a"
    then show "Q (id_n m) (with_position m (x_n a) (y_n a))" using Cons.prems(3) by simp
  qed
qed

lemma place_in_row_dom_mono: "k \<in> dom pos \<Longrightarrow> k \<in> dom (place_in_row ex ns cx cy pos)"
proof (induction ns arbitrary: cx pos)
  case Nil
  then show ?case by simp
next
  case (Cons n ns)
  let ?pos = "pos(id_n n \<mapsto> with_position n (existing_x_or ex (id_n n) cx)
                       (existing_y_or ex (id_n n) cy))"
  have "k \<in> dom ?pos"
    using Cons.prems by simp
  from Cons.IH [where pos = ?pos and cx = "cx + 100", OF this] show ?case
    by (simp only: place_in_row.simps)
qed

lemma place_in_row_total:
  "n \<in> set ns \<Longrightarrow> id_n n \<in> dom (place_in_row ex ns cx cy pos)"
proof (induction ns arbitrary: cx pos)
  case Nil
  then show ?case by simp
next
  case (Cons m ns)
  show ?case
  proof (cases "n = m")
    case True
    have "id_n m \<in> dom (pos(id_n m \<mapsto> with_position m (existing_x_or ex (id_n m) cx)
                       (existing_y_or ex (id_n m) cy)))"
      by simp
    from place_in_row_dom_mono [OF this] True show ?thesis
      by (simp only: place_in_row.simps)
  next
    case False
    with Cons.prems have "n \<in> set ns" by simp
    from Cons.IH [where cx = "cx + 100", OF this] show ?thesis
      by (simp only: place_in_row.simps)
  qed
qed

lemma layout_has_entry:
  assumes n: "n \<in> set ns"
  shows "\<exists>w. assignPositionsToNodes rnd ns ex (id_n n) = Some w \<and> id_n w = id_n n"
proof (cases "find_root ns")
  case None
  from place_in_row_total [OF n] obtain w
    where w: "place_in_row ex ns 50 50 Map.empty (id_n n) = Some w"
    by blast
  have "id_n w = id_n n"
    by (rule place_in_row_pred [where Q = "\<lambda>k w. id_n w = k", OF _ _ _ w]) simp_all
  with w None show ?thesis by (simp add: assignPositionsToNodes_def)
next
  case (Some r)
  let ?s = "traversal ns ex r"
  have sub: "assigned ?s \<subseteq> dom (positionedNodes ?s)"
    by (simp add: traversal_assigned_dom)
  from place_missed_total [OF sub n] obtain w
    where w: "fst (place_missed rnd ex ns (positionedNodes ?s, assigned ?s, 0)) (id_n n) = Some w"
    by blast
  have "id_n w = id_n n"
    by (rule place_missed_pred [where Q = "\<lambda>k w. id_n w = k", OF _ _ _ w])
       (use traversal_entry_id in simp_all)
  with w Some show ?thesis by (simp add: assignPositionsToNodes_def Let_def)
qed

lemma layout_root_anchor:
  assumes "find_root ns = Some r"
  shows "assignPositionsToNodes rnd ns ex (id_n r) = Some (with_position r 250 50)"
proof -
  let ?s = "traversal ns ex r"
  have "fst (place_missed rnd ex ns (positionedNodes ?s, assigned ?s, 0)) (id_n r)
          = positionedNodes ?s (id_n r)"
    using traversal_root [of r ns ex] by (intro place_missed_kept) simp
  with traversal_root [of r ns ex] assms show ?thesis
    by (simp add: assignPositionsToNodes_def Let_def)
qed

lemma layout_keeps_existing:
  assumes res: "assignPositionsToNodes rnd ns ex k = Some w'"
    and notroot: "\<And>r. find_root ns = Some r \<Longrightarrow> k \<noteq> id_n r"
  shows "keeps_existing ex k w'"
proof (cases "find_root ns")
  case None
  with res have w: "place_in_row ex ns 50 50 Map.empty k = Some w'"
    by (simp add: assignPositionsToNodes_def)
  show ?thesis
    by (rule place_in_row_pred [where Q = "keeps_existing ex", OF _ _ _ w])
       (simp_all add: keeps_existing_def)
next
  case (Some r)
  let ?s = "traversal ns ex r"
  from res Some
  have w: "fst (place_missed rnd ex ns (positionedNodes ?s, assigned ?s, 0)) k = Some w'"
    by (simp add: assignPositionsToNodes_def Let_def)
  have "k \<noteq> id_n r \<longrightarrow> keeps_existing ex k w'"
    by (rule place_missed_pred
          [where Q = "\<lambda>k w. k \<noteq> id_n r \<longrightarrow> keeps_existing ex k w", OF _ _ _ w])
       (use traversal_keeps_existing [of ns ex r] in \<open>simp_all add: keeps_existing_def\<close>)
  with notroot [OF Some] show ?thesis by simp
qed

lemma layout_incremental:
  assumes n: "n \<in> set ns" "n \<in> set ns'"
    and root: "find_root ns' = find_root ns"
  shows "\<exists>w w'. assignPositionsToNodes rnd ns ex0 (id_n n) = Some w
           \<and> assignPositionsToNodes rnd' ns' (Some (assignPositionsToNodes rnd ns ex0)) (id_n n)
               = Some w'
           \<and> x_n w' = x_n w \<and> y_n w' = y_n w"
proof -
  let ?prior = "assignPositionsToNodes rnd ns ex0"
  from layout_has_entry [OF n(1)] obtain w where w: "?prior (id_n n) = Some w" by blast
  from layout_has_entry [OF n(2)] obtain w'
    where w': "assignPositionsToNodes rnd' ns' (Some ?prior) (id_n n) = Some w'" by blast
  have ex: "existing_node (Some ?prior) (id_n n) = Some w"
    using w by (simp add: existing_node_def)
  have "x_n w' = x_n w \<and> y_n w' = y_n w"
  proof (cases "\<exists>r. find_root ns' = Some r \<and> id_n n = id_n r")
    case True
    then obtain r where r: "find_root ns' = Some r" "id_n n = id_n r" by blast
    from layout_root_anchor [OF r(1)] w' r(2) have "w' = with_position r 250 50" by simp
    moreover from layout_root_anchor [of ns r rnd ex0] root r w
    have "w = with_position r 250 50" by simp
    ultimately show ?thesis by simp
  next
    case False
    then have "\<And>r. find_root ns' = Some r \<Longrightarrow> id_n n \<noteq> id_n r" by blast
    from layout_keeps_existing [OF w' this] ex show ?thesis
      by (simp add: keeps_existing_def)
  qed
  with w w' show ?thesis by blast
qed

lemmas layout_eval =
  assignPositionsToNodes_def find_root_def no_parent_def traversal_def initial_state_def
  bfs_loop.simps bfs_step_def children_of_def place_child_def Let_def
  existing_node_def existing_x_or_def existing_y_or_def
  NODE_AREA_WIDTH_def NODE_AREA_HEIGHT_def NODE_OFFSET_X_def NODE_OFFSET_Y_def

lemma place_child_queue:
  "\<exists>q. queue (place_child ex e cc ci c s) = queue s @ [q] \<and> nodeId q = id_n c"
  by (simp add: place_child_def Let_def)

lemma place_children_grows:
  "assigned s \<subseteq> assigned (place_children ex e cc cs ci s) \<and>
   (\<exists>qs. queue (place_children ex e cc cs ci s) = queue s @ qs)"
proof (induction cs arbitrary: ci s)
  case Nil
  then show ?case by simp
next
  case (Cons c cs)
  show ?case
  proof (cases "id_n c \<in> assigned s")
    case True
    with Cons.IH [where s = s and ci = ci] show ?thesis by simp
  next
    case False
    let ?s' = "place_child ex e cc ci c s"
    from Cons.IH [where s = ?s' and ci = "ci + 1"] obtain qs
      where a: "assigned ?s' \<subseteq> assigned (place_children ex e cc cs (ci + 1) ?s')"
        and q: "queue (place_children ex e cc cs (ci + 1) ?s') = queue ?s' @ qs"
      by blast
    from place_child_queue [of ex e cc ci c s] obtain q0 where "queue ?s' = queue s @ [q0]"
      by blast
    with q have "queue (place_children ex e cc cs (ci + 1) ?s') = queue s @ (q0 # qs)" by simp
    moreover have "assigned s \<subseteq> assigned ?s'" by (auto simp: place_child_fields)
    ultimately show ?thesis using a False by auto
  qed
qed

lemma place_children_all_assigned:
  "c \<in> set cs \<Longrightarrow> id_n c \<in> assigned (place_children ex e cc cs ci s)"
proof (induction cs arbitrary: ci s)
  case Nil
  then show ?case by simp
next
  case (Cons a cs)
  show ?case
  proof (cases "c = a")
    case True
    show ?thesis
    proof (cases "id_n a \<in> assigned s")
      case in_s: True
      with place_children_grows [of s ex e cc cs ci] True show ?thesis by auto
    next
      case False
      have "id_n a \<in> assigned (place_child ex e cc ci a s)" by (simp add: place_child_fields)
      with place_children_grows [of "place_child ex e cc ci a s" ex e cc cs "ci + 1"] False True
      show ?thesis by auto
    qed
  next
    case False
    with Cons.prems have "c \<in> set cs" by simp
    from Cons.IH [OF this] show ?thesis by simp
  qed
qed

text \<open>Invariant rule with the dequeued entry known to be in the queue.\<close>

lemma traversal_invariant_entry:
  assumes init: "P (initial_state r)"
    and adv: "\<And>s. P s \<Longrightarrow> head s < length (queue s) \<Longrightarrow> P (s\<lparr>head := head s + 1\<rparr>)"
    and place: "\<And>s e c cc ci. P s \<Longrightarrow> e \<in> set (queue s) \<Longrightarrow> c \<in> set ns
           \<Longrightarrow> parent_id c = Some (nodeId e)
           \<Longrightarrow> id_n c \<notin> assigned s \<Longrightarrow> P (place_child ex e cc ci c s)"
  shows "P (traversal ns ex r)"
  unfolding traversal_def
proof (rule bfs_loop_invariant [where P = P, OF init])
  fix t assume t: "P t" "head t < length (queue t)"
  let ?e = "queue t ! head t"
  let ?cs = "children_of ns (nodeId ?e)"
  have "P (place_children ex ?e (length ?cs) ?cs 0 (t\<lparr>head := head t + 1\<rparr>))
         \<and> ?e \<in> set (queue (place_children ex ?e (length ?cs) ?cs 0 (t\<lparr>head := head t + 1\<rparr>)))"
  proof (rule place_children_invariant [where P = "\<lambda>u. P u \<and> ?e \<in> set (queue u)"])
    show "P (t\<lparr>head := head t + 1\<rparr>) \<and> ?e \<in> set (queue (t\<lparr>head := head t + 1\<rparr>))"
      using adv t by simp
  next
    fix c ci u
    assume u: "P u \<and> ?e \<in> set (queue u)" "c \<in> set ?cs" "id_n c \<notin> assigned u"
    then have "P (place_child ex ?e (length ?cs) ci c u)"
      using place [of u ?e c] by (simp add: children_of_def)
    moreover have "?e \<in> set (queue (place_child ex ?e (length ?cs) ci c u))"
      using u(1) place_child_queue [of ex ?e "length ?cs" ci c u] by auto
    ultimately show "P (place_child ex ?e (length ?cs) ci c u)
       \<and> ?e \<in> set (queue (place_child ex ?e (length ?cs) ci c u))" by blast
  qed
  then show "P (bfs_step ns ex t)" by (simp add: bfs_step_def Let_def)
qed

lemma traversal_assigned_queue:
  "assigned (traversal ns ex r) = nodeId ` set (queue (traversal ns ex r))"
  by (rule traversal_invariant [where P = "\<lambda>s. assigned s = nodeId ` set (queue s)"])
     (auto simp: initial_state_def place_child_def Let_def)

lemma traversal_sound:
  "assigned (traversal ns ex r) \<subseteq> reachable_ids ns (id_n r)"
proof -
  have "assigned (traversal ns ex r) = nodeId ` set (queue (traversal ns ex r))
        \<and> assigned (traversal ns ex r) \<subseteq> reachable_ids ns (id_n r)"
  proof (rule traversal_invariant_entry
      [where P = "\<lambda>s. assigned s = nodeId ` set (queue s) \<and> assigned s \<subseteq> reachable_ids ns (id_n r)"])
    show "assigned (initial_state r) = nodeId ` set (queue (initial_state r)) \<and>
          assigned (initial_state r) \<subseteq> reachable_ids ns (id_n r)"
      by (simp add: initial_state_def Let_def reachable_ids.root)
  next
    fix s :: layout_state and e c cc ci
    assume s: "assigned s = nodeId ` set (queue s) \<and> assigned s \<subseteq> reachable_ids ns (id_n r)"
      and e: "e \<in> set (queue s)" and c: "c \<in> set ns" "parent_id c = Some (nodeId e)"
    from s e have "nodeId e \<in> reachable_ids ns (id_n r)" by auto
    then have "id_n c \<in> reachable_ids ns (id_n r)" using c by (rule reachable_ids.child)
    with s show "assigned (place_child ex e cc ci c s) = nodeId ` set (queue (place_child ex e cc ci c s))
        \<and> assigned (place_child ex e cc ci c s) \<subseteq> reachable_ids ns (id_n r)"
      by (auto simp: place_child_def Let_def)
  qed auto
  then show ?thesis by blast
qed

lemma bfs_step_processed:
  assumes p: "processed ns s" and lt: "head s < length (queue s)"
  shows "processed ns (bfs_step ns ex s)"
proof -
  let ?e = "queue s ! head s"
  let ?cs = "children_of ns (nodeId ?e)"
  let ?s1 = "s\<lparr>head := head s + 1\<rparr>"
  let ?s' = "place_children ex ?e (length ?cs) ?cs 0 ?s1"
  have step: "bfs_step ns ex s = ?s'" by (simp add: bfs_step_def Let_def)
  from place_children_grows [of ?s1 ex ?e "length ?cs" ?cs 0] obtain qs
    where mono: "assigned s \<subseteq> assigned ?s'" and q: "queue ?s' = queue s @ qs"
    by auto
  have hd: "head ?s' = head s + 1"
    using place_children_measure [of ?cs ns ex ?e "length ?cs" 0 ?s1]
    by (simp add: children_of_def)
  have nth: "queue ?s' ! i = queue s ! i" if "i \<le> head s" for i
    using that lt q by (simp add: nth_append)
  have "id_n n \<in> assigned ?s'"
    if i: "i < head s + 1" and n: "n \<in> set ns" "parent_id n = Some (nodeId (queue ?s' ! i))" for i n
  proof (cases "i = head s")
    case True
    with n nth [of i] have "n \<in> set ?cs" by (simp add: children_of_def)
    then show ?thesis by (rule place_children_all_assigned)
  next
    case False
    with i have "i < head s" by simp
    with p n nth [of i] mono show ?thesis by (auto simp: processed_def)
  qed
  moreover have "head ?s' \<le> length (queue ?s')" using hd lt q by simp
  ultimately show ?thesis unfolding step processed_def hd by blast
qed

lemma traversal_processed: "processed ns (traversal ns ex r)"
  unfolding traversal_def
  by (rule bfs_loop_invariant [where P = "processed ns"])
     (simp_all add: processed_def initial_state_def Let_def bfs_step_processed [unfolded processed_def])

lemma traversal_complete:
  "reachable_ids ns (id_n r) \<subseteq> assigned (traversal ns ex r)"
proof
  fix k assume "k \<in> reachable_ids ns (id_n r)"
  then show "k \<in> assigned (traversal ns ex r)"
  proof induction
    case root
    show ?case using traversal_root [of r ns ex] by simp
  next
    case (child p n)
    let ?s = "traversal ns ex r"
    from child.IH obtain i where i: "i < length (queue ?s)" "nodeId (queue ?s ! i) = p"
      by (auto simp: traversal_assigned_queue in_set_conv_nth)
    have "length (queue ?s) \<le> head ?s" unfolding traversal_def by (rule bfs_loop_exhausted)
    with i have "i < head ?s" by simp
    with traversal_processed [of ns ex r] child.hyps i(2) show ?case
      by (auto simp: processed_def)
  qed
qed

lemma traversal_assigned_reachable:
  "assigned (traversal ns ex r) = reachable_ids ns (id_n r)"
  using traversal_sound traversal_complete by blast

lemma place_missed_no_draw:
  assumes "\<forall>n\<in>set ns. id_n n \<in> asg \<or> existing_node ex (id_n n) \<noteq> None"
  shows "fst (place_missed rnd1 ex ns (pos, asg, d1)) = fst (place_missed rnd2 ex ns (pos, asg, d2))"
  using assms
proof (induction ns arbitrary: pos asg d1 d2)
  case Nil
  then show ?case by simp
next
  case (Cons n ns)
  show ?case
  proof (cases "id_n n \<in> asg")
    case True
    with Cons.IH [of asg pos d1 d2] Cons.prems show ?thesis by simp
  next
    case False
    with Cons.prems obtain w where w: "existing_node ex (id_n n) = Some w" by auto
    have rest: "\<forall>m\<in>set ns. id_n m \<in> insert (id_n n) asg \<or> existing_node ex (id_n m) \<noteq> None"
      using Cons.prems by auto
    have step: "place_missed rnd ex (n # ns) (pos, asg, d)
        = place_missed rnd ex ns
            (pos(id_n n \<mapsto> with_position n (x_n w) (y_n w)), insert (id_n n) asg, d)"
      for rnd d
      using False w by simp
    from Cons.IH [OF rest, of "pos(id_n n \<mapsto> with_position n (x_n w) (y_n w))" d1 d2]
    show ?thesis by (simp only: step)
  qed
qed

lemma ocean_reachable:
  "{''ocean'', ''wave'', ''tide'', ''surf''} \<subseteq> reachable_ids ocean_nodes ''ocean''"
proof -
  have o: "''ocean'' \<in> reachable_ids ocean_nodes ''ocean''" by (rule reachable_ids.root)
  have w: "''wave'' \<in> reachable_ids ocean_nodes ''ocean''"
    using reachable_ids.child [OF o, of "node_example ''wave'' (Some ''ocean'')"]
    by (simp add: ocean_nodes_def node_example_def)
  have t: "''tide'' \<in> reachable_ids ocean_nodes ''ocean''"
    using reachable_ids.child [OF o, of "node_example ''tide'' (Some ''ocean'')"]
    by (simp add: ocean_nodes_def node_example_def)
  have s: "''surf'' \<in> reachable_ids ocean_nodes ''ocean''"
    using reachable_ids.child [OF w, of "node_example ''surf'' (Some ''wave'')"]
    by (simp add: ocean_nodes_def node_example_def)
  from o w t s show ?thesis by simp
qed

lemma existing_node_None [simp]: "existing_node None k = None"
  by (simp add: existing_node_def)

lemma place_child_same:
  "same_traversal ex s t \<Longrightarrow>
     same_traversal ex (place_child ex e cc ci c s) (place_child None e cc ci c t)"
  by (auto simp: same_traversal_def place_child_def Let_def)

lemma place_children_same:
  "same_traversal ex s t \<Longrightarrow>
     same_traversal ex (place_children ex e cc cs ci s) (place_children None e cc cs ci t)"
proof (induction cs arbitrary: ci s t)
  case Nil
  then show ?case by simp
next
  case (Cons c cs)
  from Cons.prems have a: "assigned s = assigned t" by (simp add: same_traversal_def)
  show ?case
  proof (cases "id_n c \<in> assigned s")
    case True
    with a Cons.IH [OF Cons.prems, of ci] show ?thesis by simp
  next
    case False
    from Cons.IH [OF place_child_same [OF Cons.prems, of e cc ci c], of "ci + 1"] False a
    show ?thesis by simp
  qed
qed

lemma bfs_step_same:
  assumes "same_traversal ex s t"
  shows "same_traversal ex (bfs_step ns ex s) (bfs_step ns None t)"
proof -
  from assms have q: "queue s = queue t" "head s = head t" by (simp_all add: same_traversal_def)
  from assms have "same_traversal ex (s\<lparr>head := head s + 1\<rparr>) (t\<lparr>head := head t + 1\<rparr>)"
    by (simp add: same_traversal_def)
  from place_children_same [OF this] show ?thesis
    by (simp add: bfs_step_def Let_def q)
qed

lemma bfs_loop_same:
  "same_traversal ex s t \<Longrightarrow> same_traversal ex (bfs_loop ns ex s) (bfs_loop ns None t)"
proof (induction ns ex s arbitrary: t rule: bfs_loop.induct)
  case (1 ns ex s)
  from "1.prems" have q: "queue s = queue t" "head s = head t" by (simp_all add: same_traversal_def)
  show ?case
  proof (cases "head s < length (queue s)")
    case True
    from "1.IH" [OF True bfs_step_same [OF "1.prems"]] True q show ?thesis
      by (subst bfs_loop.simps, subst (2) bfs_loop.simps) simp
  next
    case False
    with "1.prems" q show ?thesis
      by (subst bfs_loop.simps, subst (2) bfs_loop.simps) simp
  qed
qed

lemma traversal_same: "same_traversal ex (traversal ns ex r) (traversal ns None r)"
  unfolding traversal_def by (rule bfs_loop_same) (simp add: same_traversal_def)

text \<open>Without existing positions, every entry of the queue carries the position of its node.\<close>

lemma fresh_queue_positions:
  "\<forall>q\<in>set (queue (traversal ns None r)).
      \<exists>w. positionedNodes (traversal ns None r) (nodeId q) = Some w
          \<and> x_n w = parentX q \<and> y_n w = parentY q"
proof -
  let ?P = "\<lambda>s. assigned s = nodeId ` set (queue s) \<and>
     (\<forall>q\<in>set (queue s). \<exists>w. positionedNodes s (nodeId q) = Some w
          \<and> x_n w = parentX q \<and> y_n w = parentY q)"
  have "?P (traversal ns None r)"
  proof (rule traversal_invariant [where P = ?P])
    show "?P (initial_state r)" by (simp add: initial_state_def Let_def)
  next
    fix s :: layout_state assume "?P s" "head s < length (queue s)"
    then show "?P (s\<lparr>head := head s + 1\<rparr>)" by simp
  next
    fix s :: layout_state and e and c :: BackendWordNode and cc ci
    assume s: "?P s" and c: "id_n c \<notin> assigned s"
    from s c have ne: "\<forall>q\<in>set (queue s). nodeId q \<noteq> id_n c" by (metis imageI)
    show "?P (place_child None e cc ci c s)"
      using s ne by (auto simp: place_child_def Let_def)
  qed
  then show ?thesis by blast
qed

lemma layout_assigned_kept:
  assumes "find_root ns = Some r" "k \<in> assigned (traversal ns ex r)"
  shows "assignPositionsToNodes rnd ns ex k = positionedNodes (traversal ns ex r) k"
  using assms by (simp add: assignPositionsToNodes_def Let_def place_missed_kept)

lemma place_child_eq:
  "place_child ex e cc ci c s =
     s\<lparr>positionedNodes := (positionedNodes s)(id_n c \<mapsto> placed ex e cc ci c),
       assigned := insert (id_n c) (assigned s),
       queue := queue s @ [child_entry e cc ci c]\<rparr>"
proof -
  have x: "parentX e + cos ((pi / real (cc + 1)) * real (ci + 1)) * NODE_OFFSET_X
             * real (depth e + 1) * 0.5 = child_x e cc ci"
    by (simp only: child_x_def NODE_OFFSET_X_def)
  have y: "parentY e + sin ((pi / real (cc + 1)) * real (ci + 1)) * NODE_OFFSET_Y * 1.5
             = child_y e cc ci"
    by (simp only: child_y_def NODE_OFFSET_Y_def)
  show ?thesis
    by (simp only: place_child_def Let_def x y placed_def child_entry_def)
qed

lemma place_children_fresh:
  assumes "distinct (map id_n cs)" and "\<forall>c\<in>set cs. id_n c \<notin> assigned s"
  shows "assigned (place_children ex e cc cs ci s) = assigned s \<union> id_n ` set cs
    \<and> (\<forall>k<length cs. positionedNodes (place_children ex e cc cs ci s) (id_n (cs ! k))
           = Some (placed ex e cc (ci + k) (cs ! k))
         \<and> child_entry e cc (ci + k) (cs ! k) \<in> set (queue (place_children ex e cc cs ci s)))
    \<and> (\<forall>k'. k' \<notin> id_n ` set cs \<longrightarrow>
           positionedNodes (place_children ex e cc cs ci s) k' = positionedNodes s k')"
  using assms
proof (induction cs arbitrary: ci s)
  case Nil
  then show ?case by simp
next
  case (Cons c cs)
  let ?s1 = "place_child ex e cc ci c s"
  let ?s' = "place_children ex e cc cs (ci + 1) ?s1"
  have step: "place_children ex e cc (c # cs) ci s = ?s'"
    using Cons.prems(2) by simp
  have d: "distinct (map id_n cs)" and nc: "id_n c \<notin> id_n ` set cs"
    using Cons.prems(1) by auto
  have fresh: "\<forall>c'\<in>set cs. id_n c' \<notin> assigned ?s1"
    using Cons.prems(2) nc by (force simp: place_child_fields image_iff)
  note IH = Cons.IH [OF d fresh, of "ci + 1"]
  have a: "assigned ?s' = assigned s \<union> id_n ` set (c # cs)"
    using IH by (auto simp: place_child_fields)
  have p0: "positionedNodes ?s' (id_n c) = Some (placed ex e cc ci c)"
    using IH nc by (simp add: place_child_eq)
  have q0: "child_entry e cc ci c \<in> set (queue ?s')"
    using place_children_grows [of ?s1 ex e cc cs "ci + 1"] by (auto simp: place_child_eq)
  have k: "positionedNodes ?s' (id_n ((c # cs) ! k)) = Some (placed ex e cc (ci + k) ((c # cs) ! k))
         \<and> child_entry e cc (ci + k) ((c # cs) ! k) \<in> set (queue ?s')"
    if "k < length (c # cs)" for k
  proof (cases k)
    case 0
    with p0 q0 show ?thesis by simp
  next
    case (Suc j)
    with that have "j < length cs" by simp
    with IH Suc show ?thesis by simp
  qed
  have f: "positionedNodes ?s' k' = positionedNodes s k'" if "k' \<notin> id_n ` set (c # cs)" for k'
    using IH that by (simp add: place_child_eq)
  from a k f show ?case unfolding step by blast
qed

lemma bfs_step_queue_inv:
  assumes "queue_inv ns s"
  shows "queue_inv ns (bfs_step ns ex s)"
  unfolding bfs_step_def Let_def
proof (rule place_children_invariant [where P = "queue_inv ns"])
  show "queue_inv ns (s\<lparr>head := head s + 1\<rparr>)" using assms by (simp add: queue_inv_def)
next
  fix c ci and t :: layout_state
  assume "queue_inv ns t" "c \<in> set (children_of ns (nodeId (queue s ! head s)))"
    "id_n c \<notin> assigned t"
  then show "queue_inv ns (place_child ex (queue s ! head s)
      (length (children_of ns (nodeId (queue s ! head s)))) ci c t)"
    by (auto simp: queue_inv_def place_child_eq children_of_def child_entry_def)
qed

lemma find_root_Some: "find_root ns = Some r \<Longrightarrow> r \<in> set ns \<and> no_parent r"
  by (auto simp: find_root_def find_Some_iff)

lemma distinct_ids_eq:
  "distinct (map id_n ns) \<Longrightarrow> a \<in> set ns \<Longrightarrow> b \<in> set ns \<Longrightarrow> id_n a = id_n b \<Longrightarrow> a = b"
  by (simp add: distinct_map inj_on_def)

lemma distinct_queue_index:
  assumes "distinct (map nodeId q)" "i < length q" "j < length q" "nodeId (q ! i) = nodeId (q ! j)"
  shows "i = j"
  using nth_eq_iff_index_eq [of "map nodeId q" i j] assms by simp

lemma bfs_step_tree_inv:
  assumes d: "distinct (map id_n ns)" and ne: "\<forall>n\<in>set ns. id_n n \<noteq> []"
    and r: "r \<in> set ns" "no_parent r"
    and inv: "tree_inv ns ex r s" and lt: "head s < length (queue s)"
  shows "tree_inv ns ex r (bfs_step ns ex s)"
proof -
  let ?e = "queue s ! head s"
  let ?cs = "children_of ns (nodeId ?e)"
  let ?s1 = "s\<lparr>head := head s + 1\<rparr>"
  let ?s' = "place_children ex ?e (length ?cs) ?cs 0 ?s1"
  have step: "bfs_step ns ex s = ?s'" by (simp add: bfs_step_def Let_def)
  from inv have qi: "queue_inv ns s"
    and V: "\<forall>n\<in>set ns. id_n n \<in> assigned s \<longrightarrow>
         id_n n = id_n r \<or> (\<exists>i<head s. parent_id n = Some (nodeId (queue s ! i)))"
    and G: "\<forall>i<head s. children_placed ns ex (queue s ! i) s"
    by (simp_all add: tree_inv_def)
  from qi have dom: "dom (positionedNodes s) = assigned s"
    and ids: "nodeId ` set (queue s) = assigned s"
    and dq: "distinct (map nodeId (queue s))"
    and sub: "assigned s \<subseteq> id_n ` set ns"
    by (simp_all add: queue_inv_def)
  have dcs: "distinct (map id_n ?cs)"
    using d by (simp add: children_of_def distinct_map_filter)
  have "nodeId ?e \<in> assigned s" using ids lt by (metis imageI nth_mem)
  with sub obtain m where "m \<in> set ns" "id_n m = nodeId ?e" by auto
  with ne have e_ne: "nodeId ?e \<noteq> []" by metis
  have fresh: "id_n c \<notin> assigned s" if c: "c \<in> set ?cs" for c
  proof
    assume a: "id_n c \<in> assigned s"
    from c have cn: "c \<in> set ns" and cp: "parent_id c = Some (nodeId ?e)"
      by (simp_all add: children_of_def)
    from V cn a consider "id_n c = id_n r"
      | i where "i < head s" "parent_id c = Some (nodeId (queue s ! i))"
      by blast
    then show False
    proof cases
      case 1
      with d cn r(1) have "c = r" by (rule distinct_ids_eq)
      with r(2) cp e_ne show False by (simp add: no_parent_def)
    next
      case 2
      with cp have "nodeId (queue s ! i) = nodeId ?e" by simp
      with dq 2(1) lt have "i = head s" by (intro distinct_queue_index [of "queue s"]) simp_all
      with 2(1) show False by simp
    qed
  qed
  then have "\<forall>c\<in>set ?cs. id_n c \<notin> assigned ?s1" by simp
  from place_children_fresh [OF dcs this, of ex ?e "length ?cs" 0]
  have A: "assigned ?s' = assigned s \<union> id_n ` set ?cs"
    and K: "\<forall>k<length ?cs. positionedNodes ?s' (id_n (?cs ! k))
               = Some (placed ex ?e (length ?cs) k (?cs ! k))
             \<and> child_entry ?e (length ?cs) k (?cs ! k) \<in> set (queue ?s')"
    and F: "\<forall>k'. k' \<notin> id_n ` set ?cs \<longrightarrow> positionedNodes ?s' k' = positionedNodes s k'"
    by simp_all
  from place_children_grows [of ?s1 ex ?e "length ?cs" ?cs 0] obtain qs
    where q: "queue ?s' = queue s @ qs" by auto
  have hd: "head ?s' = head s + 1"
    using place_children_measure [of ?cs ns ex ?e "length ?cs" 0 ?s1]
    by (simp add: children_of_def)
  have nth: "queue ?s' ! i = queue s ! i" if "i \<le> head s" for i
    using that lt q by (simp add: nth_append)
  have c1: "queue_inv ns ?s'" using bfs_step_queue_inv [OF qi, of ex] by (simp only: step)
  have c2: "head ?s' \<le> length (queue ?s')" using hd lt q by simp
  have c3: "id_n n = id_n r \<or> (\<exists>i<head ?s'. parent_id n = Some (nodeId (queue ?s' ! i)))"
    if n: "n \<in> set ns" "id_n n \<in> assigned ?s'" for n
  proof (cases "id_n n \<in> assigned s")
    case True
    with V n(1) consider "id_n n = id_n r"
      | i where "i < head s" "parent_id n = Some (nodeId (queue s ! i))"
      by blast
    then show ?thesis
    proof cases
      case 1
      then show ?thesis by simp
    next
      case 2
      with nth [of i] hd have "i < head ?s' \<and> parent_id n = Some (nodeId (queue ?s' ! i))" by simp
      then show ?thesis by blast
    qed
  next
    case False
    with A n(2) obtain c where c: "c \<in> set ?cs" "id_n c = id_n n" by auto
    then have "c \<in> set ns" "parent_id c = Some (nodeId ?e)" by (simp_all add: children_of_def)
    moreover with d n(1) c(2) have "c = n" by (intro distinct_ids_eq [of ns]) simp_all
    ultimately have "parent_id n = Some (nodeId (queue ?s' ! head s))" using nth [of "head s"] by simp
    with hd have "head s < head ?s' \<and> parent_id n = Some (nodeId (queue ?s' ! head s))" by simp
    then show ?thesis by blast
  qed
  have c4: "children_placed ns ex (queue ?s' ! i) ?s'" if i: "i < head ?s'" for i
  proof (cases "i = head s")
    case True
    with K nth [of i] show ?thesis by (simp add: children_placed_def)
  next
    case False
    with i hd have i': "i < head s" by simp
    let ?ei = "queue s ! i"
    let ?ci = "children_of ns (nodeId ?ei)"
    from G i' have Gi: "children_placed ns ex ?ei s" by simp
    have "positionedNodes ?s' (id_n (?ci ! k)) = Some (placed ex ?ei (length ?ci) k (?ci ! k))
          \<and> child_entry ?ei (length ?ci) k (?ci ! k) \<in> set (queue ?s')"
      if k: "k < length ?ci" for k
    proof -
      from Gi k have p: "positionedNodes s (id_n (?ci ! k)) = Some (placed ex ?ei (length ?ci) k (?ci ! k))"
        and qm: "child_entry ?ei (length ?ci) k (?ci ! k) \<in> set (queue s)"
        by (simp_all add: children_placed_def)
      from p dom have "id_n (?ci ! k) \<in> assigned s" by auto
      with fresh have "id_n (?ci ! k) \<notin> id_n ` set ?cs" by auto
      with F p have "positionedNodes ?s' (id_n (?ci ! k)) = Some (placed ex ?ei (length ?ci) k (?ci ! k))"
        by simp
      moreover from qm q have "child_entry ?ei (length ?ci) k (?ci ! k) \<in> set (queue ?s')" by simp
      ultimately show ?thesis by blast
    qed
    with nth [of i] i' show ?thesis by (simp add: children_placed_def)
  qed
  from c1 c2 c3 c4 show ?thesis unfolding step tree_inv_def by blast
qed

lemma traversal_tree_inv:
  assumes d: "distinct (map id_n ns)" and ne: "\<forall>n\<in>set ns. id_n n \<noteq> []"
    and root: "find_root ns = Some r"
  shows "tree_inv ns ex r (traversal ns ex r)"
  unfolding traversal_def
proof (rule bfs_loop_invariant [where P = "tree_inv ns ex r"])
  from find_root_Some [OF root] show "tree_inv ns ex r (initial_state r)"
    by (simp add: tree_inv_def queue_inv_def initial_state_def Let_def)
next
  fix t assume "tree_inv ns ex r t" "head t < length (queue t)"
  with d ne find_root_Some [OF root] show "tree_inv ns ex r (bfs_step ns ex t)"
    by (intro bfs_step_tree_inv) simp_all
qed

lemma layout_child_position:
  assumes d: "distinct (map id_n ns)" and ne: "\<forall>n\<in>set ns. id_n n \<noteq> []"
    and root: "find_root ns = Some r"
    and e: "e \<in> set (queue (traversal ns ex r))"
    and k: "k < length (children_of ns (nodeId e))"
  shows "assignPositionsToNodes rnd ns ex (id_n (children_of ns (nodeId e) ! k))
           = Some (placed ex e (length (children_of ns (nodeId e))) k (children_of ns (nodeId e) ! k))
         \<and> child_entry e (length (children_of ns (nodeId e))) k (children_of ns (nodeId e) ! k)
             \<in> set (queue (traversal ns ex r))"
proof -
  let ?s = "traversal ns ex r"
  let ?cs = "children_of ns (nodeId e)"
  from e obtain i where i: "i < length (queue ?s)" "queue ?s ! i = e"
    by (auto simp: in_set_conv_nth)
  have "length (queue ?s) \<le> head ?s" unfolding traversal_def by (rule bfs_loop_exhausted)
  with i have "i < head ?s" by simp
  with traversal_tree_inv [OF d ne root, of ex] i(2) have "children_placed ns ex e ?s"
    by (auto simp: tree_inv_def)
  with k have p: "positionedNodes ?s (id_n (?cs ! k)) = Some (placed ex e (length ?cs) k (?cs ! k))"
    and q: "child_entry e (length ?cs) k (?cs ! k) \<in> set (queue ?s)"
    by (simp_all add: children_placed_def)
  from p have "id_n (?cs ! k) \<in> assigned ?s" by (auto simp: traversal_assigned_dom)
  from layout_assigned_kept [OF root this] p q show ?thesis by simp
qed

lemma traversal_root_entry:
  "\<lparr>nodeId = id_n r, parentX = 250, parentY = 50, depth = 0\<rparr> \<in> set (queue (traversal ns ex r))"
  by (rule traversal_invariant)
     (simp_all add: initial_state_def Let_def NODE_AREA_WIDTH_def place_child_eq)

lemma ids_nonempty: "[] \<notin> set (map id_n ns) \<Longrightarrow> \<forall>n\<in>set ns. id_n n \<noteq> []"
  by (metis image_eqI set_map)

lemma fan_angles:
  "cos (pi / real (3 + 1) * real (0 + 1)) = sqrt 2 / 2"
  "sin (pi / real (3 + 1) * real (0 + 1)) = sqrt 2 / 2"
  "cos (pi / real (3 + 1) * real (1 + 1)) = 0"
  "sin (pi / real (3 + 1) * real (1 + 1)) = 1"
  "cos (pi / real (3 + 1) * real (2 + 1)) = - (sqrt 2 / 2)"
  "sin (pi / real (3 + 1) * real (2 + 1)) = sqrt 2 / 2"
proof -
  have a: "pi / real (3 + 1) * real (0 + 1) = pi / 4" by simp
  have b: "pi / real (3 + 1) * real (1 + 1) = pi / 2" by simp
  have c: "pi / real (3 + 1) * real (2 + 1) = pi - pi / 4" by simp
  show "cos (pi / real (3 + 1) * real (0 + 1)) = sqrt 2 / 2" unfolding a by (rule cos_45)
  show "sin (pi / real (3 + 1) * real (0 + 1)) = sqrt 2 / 2" unfolding a by (rule sin_45)
  show "cos (pi / real (3 + 1) * real (1 + 1)) = 0" unfolding b by (rule cos_pi_half)
  show "sin (pi / real (3 + 1) * real (1 + 1)) = 1" unfolding b by (rule sin_pi_half)
  show "cos (pi / real (3 + 1) * real (2 + 1)) = - (sqrt 2 / 2)"
    unfolding c by (simp only: cos_pi_minus cos_45)
  show "sin (pi / real (3 + 1) * real (2 + 1)) = sqrt 2 / 2"
    unfolding c by (simp only: sin_pi_minus sin_45)
qed

lemma fan_positions:
  fixes e :: queue_entry
  assumes "parentX e = 250" "parentY e = 50" "depth e = 0"
  shows "child_x e 3 0 = 250 + 25 * sqrt 2" "child_y e 3 0 = 50 + 75 * sqrt 2 / 2"
    "child_x e 3 1 = 250" "child_y e 3 1 = 125"
    "child_x e 3 2 = 250 - 25 * sqrt 2" "child_y e 3 2 = 50 + 75 * sqrt 2 / 2"
  unfolding child_x_def child_y_def assms fan_angles by simp_all

lemma sqrt2_facts: "0 < sqrt 2" "sqrt 2 < 2"
proof -
  show "0 < sqrt 2" by simp
  have "sqrt 2 < sqrt 4" by (simp only: real_sqrt_less_iff)
  then show "sqrt 2 < 2" by simp
qed

lemma inactive_unchanged: "\<not> is_active g \<Longrightarrow> g\<lparr>is_active := False\<rparr> = g"
  by simp

lemma submit_begin_session: "gameState (fst (submit_begin c)) = gameState c"
  by (simp add: submit_begin_def split: option.splits)

lemma submit_begin_inactive:
  assumes "gameState c = Some g" "\<not> is_active g"
  shows "submit_begin c =
    (c\<lparr>error := Some
        ''Cannot add connection: Game not active, no node selected, or word is empty.''\<rparr>, None)"
  using assms by (simp add: submit_begin_def split: option.splits)

lemma submit_end_rejected:
  assumes "\<not> accepted resp"
  shows "gameState (submit_end gs resp rnd c)
     = map_option (\<lambda>g. g\<lparr>is_active := is_active g \<and> \<not> time_limit_exceeded resp\<rparr>) (gameState c)"
proof (cases resp)
  case (Ok_response b)
  with assms show ?thesis by (simp add: accepted_def)
next
  case (Error_response status detail)
  show ?thesis
  proof (cases "status = 400 \<and> detail = Some ''Time limit exceeded''")
    case True
    with Error_response show ?thesis
      by (cases "gameState c") (simp_all add: submit_end_def time_limit_exceeded_def)
  next
    case False
    with Error_response show ?thesis
      by (cases "gameState c") (auto simp: submit_end_def time_limit_exceeded_def)
  qed
next
  case (Thrown msg)
  then show ?thesis
    by (cases "gameState c") (simp_all add: submit_end_def time_limit_exceeded_def)
qed

lemma step_inactive:
  assumes "gameState (component a) = Some g" "\<not> is_active g" "in_flight a = []"
  shows "gameState (component (step ev a)) = Some g \<and> in_flight (step ev a) = []"
proof (cases ev)
  case (Effect now)
  with assms show ?thesis by (simp add: timer_effect_def)
next
  case (Interval now gs)
  with assms show ?thesis by (simp add: calculateTimeLeft_def Let_def)
next
  case (Click k)
  with assms show ?thesis by (simp add: node_click_def)
next
  case (Input_change w)
  with assms show ?thesis by simp
next
  case Submit_form
  with assms submit_begin_inactive [of "component a" g] show ?thesis by simp
next
  case (Answer i resp rnd)
  with assms show ?thesis by simp
qed

lemma run_inactive:
  "gameState (component a) = Some g \<Longrightarrow> \<not> is_active g \<Longrightarrow> in_flight a = [] \<Longrightarrow>
     gameState (component (run evs a)) = Some g \<and> in_flight (run evs a) = []"
proof (induction evs arbitrary: a)
  case Nil
  then show ?case by simp
next
  case (Cons ev evs)
  from step_inactive [OF Cons.prems, of ev] Cons.IH [of "step ev a"] Cons.prems(2)
  show ?case by simp
qed

lemmas screen_eval =
  screen_example_def screen_expired_def component_example_def session_example_def
  backend_state_example_def backend_time_up_def
  submit_begin_def submit_end_def handleAddConnection_def node_click_def
  timer_effect_def calculateTimeLeft_def remaining_def start_time_or_def math_round_def
  trim_def is_space_def with_nodes_def error_message_def accepted_def time_limit_exceeded_def
  Let_def

lemma handleAddNode_accepted:
  assumes "onNodeAdded l p"
  shows "moves (handleAddNode onNodeAdded rnd l p s) = moves s + 1"
    "\<exists>n. nodes_b (handleAddNode onNodeAdded rnd l p s) = nodes_b s @ [n] \<and> label n = l"
    "\<exists>e. edges_b (handleAddNode onNodeAdded rnd l p s) = edges_b s @ [e] \<and> source e = p"
  using assms by (simp_all add: handleAddNode_def getNodeId_def Let_def)

lemma handleAddNode_rejected:
  assumes "\<not> onNodeAdded l p"
  shows "handleAddNode onNodeAdded rnd l p s = s"
  using assms by (simp add: handleAddNode_def)

lemma object_get_set:
  "object_get (object_set o_js k v) k' = (if k' = k then Some v else object_get o_js k')"
  by (simp add: object_get_def object_set_def)

lemma with_position_js_simps [simp]:
  "id_n (with_position_js n vx vy) = id_n n"
  "x_js (with_position_js n vx vy) = vx"
  "y_js (with_position_js n vx vy) = vy"
  by (simp_all add: with_position_js_def BackendWordNode.extend_def WordNode_js.fields_def)

lemma is_finite_Num [simp]: "is_finite (Num r)"
  by (simp add: is_finite_def)

lemma placed_entry_ok:
  "entry_ok ex (id_n n) (with_position_js n (existing_x_or_js ex (id_n n) vx)
      (existing_y_or_js ex (id_n n) vy))"
  by (cases "existing_node_js ex (id_n n)")
     (simp_all add: entry_ok_def existing_x_or_js_def existing_y_or_js_def)

lemma bfs_loop_js_invariant:
  assumes "P s"
    and "\<And>t. P t \<Longrightarrow> head_js t < length (queue_js t) \<Longrightarrow> P (bfs_step_js ns ex t)"
  shows "P (bfs_loop_js ns ex s)"
  using assms
proof (induction ns ex s rule: bfs_loop_js.induct)
  case (1 ns ex s)
  show ?case
  proof (cases "head_js s < length (queue_js s)")
    case True
    then have "P (bfs_step_js ns ex s)" using "1.prems" by blast
    with "1.IH" [OF True] "1.prems"(2) have "P (bfs_loop_js ns ex (bfs_step_js ns ex s))"
      by blast
    with True show ?thesis by (subst bfs_loop_js.simps) simp
  next
    case False
    with "1.prems"(1) show ?thesis by (subst bfs_loop_js.simps) simp
  qed
qed

lemma place_children_js_invariant:
  assumes "P s"
    and "\<And>c ci t. P t \<Longrightarrow> c \<in> set cs \<Longrightarrow> id_n c \<notin> assigned_js t
           \<Longrightarrow> P (place_child_js ex e cc ci c t)"
  shows "P (place_children_js ex e cc cs ci s)"
  using assms
proof (induction cs arbitrary: ci s)
  case Nil
  then show ?case by simp
next
  case (Cons c cs)
  show ?case
  proof (cases "id_n c \<in> assigned_js s")
    case True
    with Cons show ?thesis by simp
  next
    case False
    have "P (place_child_js ex e cc ci c s)" using Cons.prems False by simp
    then have "P (place_children_js ex e cc cs (ci + 1) (place_child_js ex e cc ci c s))"
      using Cons.IH Cons.prems(2) by simp
    with False show ?thesis by simp
  qed
qed

text \<open>Every assigned id can be read from the object, and what can be read is in order.\<close>

definition state_ok :: "existing_js \<Rightarrow> layout_state_js \<Rightarrow> bool" where
  "state_ok ex s =
     ((\<forall>k\<in>assigned_js s. object_get (positionedNodes_js s) k \<noteq> None) \<and>
      (\<forall>k w. object_get (positionedNodes_js s) k = Some w \<longrightarrow> entry_ok ex k w))"

lemma place_child_js_ok:
  "state_ok ex s \<Longrightarrow> state_ok ex (place_child_js ex e cc ci c s)"
  using placed_entry_ok [of ex c]
  by (auto simp: state_ok_def place_child_js_def Let_def object_get_set)

lemma bfs_loop_js_ok:
  assumes "state_ok ex s"
  shows "state_ok ex (bfs_loop_js ns ex s)"
proof (rule bfs_loop_js_invariant [where P = "state_ok ex", OF assms])
  fix t assume t: "state_ok ex t"
  show "state_ok ex (bfs_step_js ns ex t)"
    unfolding bfs_step_js_def Let_def
  proof (rule place_children_js_invariant [where P = "state_ok ex"])
    show "state_ok ex (t\<lparr>head_js := head_js t + 1\<rparr>)" using t by (simp add: state_ok_def)
  next
    fix c ci u assume "state_ok ex u"
    then show "state_ok ex (place_child_js ex (queue_js t ! head_js t)
        (length (children_of ns (nodeId (queue_js t ! head_js t)))) ci c u)"
      by (rule place_child_js_ok)
  qed
qed

lemma object_get_empty [simp]: "object_get empty_object k = None"
  by (simp add: object_get_def empty_object_def)

lemma initial_state_js_ok: "state_ok ex (initial_state_js r)"
  by (simp add: state_ok_def initial_state_js_def Let_def object_get_set entry_ok_def)

lemma place_missed_js_ok:
  assumes "\<forall>k\<in>asg. object_get pos k \<noteq> None"
    and "\<forall>k w. object_get pos k = Some w \<longrightarrow> entry_ok ex k w"
  shows "(\<forall>n\<in>set ns. object_get (fst (place_missed_js rnd ex ns (pos, asg, d))) (id_n n) \<noteq> None)
    \<and> (\<forall>k w. object_get (fst (place_missed_js rnd ex ns (pos, asg, d))) k = Some w
           \<longrightarrow> entry_ok ex k w)
    \<and> (\<forall>k. object_get pos k \<noteq> None
           \<longrightarrow> object_get (fst (place_missed_js rnd ex ns (pos, asg, d))) k \<noteq> None)"
  using assms
proof (induction ns arbitrary: pos asg d)
  case Nil
  then show ?case by simp
next
  case (Cons n ns)
  show ?case
  proof (cases "id_n n \<in> asg")
    case True
    have step: "place_missed_js rnd ex (n # ns) (pos, asg, d) = place_missed_js rnd ex ns (pos, asg, d)"
      using True by simp
    from Cons.IH [OF Cons.prems, of d] Cons.prems(1) True show ?thesis
      unfolding step by auto
  next
    case False
    show ?thesis
    proof (cases "existing_node_js ex (id_n n)")
      case None
      let ?v = "with_position_js n (Num (rnd d * NODE_AREA_WIDTH)) (Num (rnd (d + 1) * NODE_AREA_HEIGHT))"
      let ?pos = "object_set pos (id_n n) ?v"
      have step: "place_missed_js rnd ex (n # ns) (pos, asg, d)
          = place_missed_js rnd ex ns (?pos, insert (id_n n) asg, d + 2)"
        using False None by simp
      have a: "\<forall>k\<in>insert (id_n n) asg. object_get ?pos k \<noteq> None"
        using Cons.prems(1) by (simp add: object_get_set)
      have b: "\<forall>k w. object_get ?pos k = Some w \<longrightarrow> entry_ok ex k w"
        using Cons.prems(2) by (auto simp: object_get_set entry_ok_def)
      have c: "object_get ?pos (id_n n) \<noteq> None"
        "\<forall>k. object_get pos k \<noteq> None \<longrightarrow> object_get ?pos k \<noteq> None"
        by (simp_all add: object_get_set)
      from Cons.IH [OF a b, of "d + 2"] c show ?thesis
        unfolding step by auto
    next
      case (Some w)
      let ?v = "with_position_js n (x_js w) (y_js w)"
      let ?pos = "object_set pos (id_n n) ?v"
      have step: "place_missed_js rnd ex (n # ns) (pos, asg, d)
          = place_missed_js rnd ex ns (?pos, insert (id_n n) asg, d)"
        using False Some by simp
      have a: "\<forall>k\<in>insert (id_n n) asg. object_get ?pos k \<noteq> None"
        using Cons.prems(1) by (simp add: object_get_set)
      have "entry_ok ex (id_n n) ?v" using Some by (simp add: entry_ok_def)
      then have b: "\<forall>k w. object_get ?pos k = Some w \<longrightarrow> entry_ok ex k w"
        using Cons.prems(2) by (auto simp: object_get_set)
      have c: "object_get ?pos (id_n n) \<noteq> None"
        "\<forall>k. object_get pos k \<noteq> None \<longrightarrow> object_get ?pos k \<noteq> None"
        by (simp_all add: object_get_set)
      from Cons.IH [OF a b, of d] c show ?thesis
        unfolding step by auto
    qed
  qed
qed

lemma place_in_row_js_ok:
  assumes "\<forall>k w. object_get pos k = Some w \<longrightarrow> entry_ok ex k w"
  shows "(\<forall>n\<in>set ns. object_get (place_in_row_js ex ns cx cy pos) (id_n n) \<noteq> None)
    \<and> (\<forall>k w. object_get (place_in_row_js ex ns cx cy pos) k = Some w \<longrightarrow> entry_ok ex k w)
    \<and> (\<forall>k. object_get pos k \<noteq> None
           \<longrightarrow> object_get (place_in_row_js ex ns cx cy pos) k \<noteq> None)"
  using assms
proof (induction ns arbitrary: cx pos)
  case Nil
  then show ?case by simp
next
  case (Cons n ns)
  let ?v = "with_position_js n (existing_x_or_js ex (id_n n) cx) (existing_y_or_js ex (id_n n) cy)"
  let ?pos = "object_set pos (id_n n) ?v"
  have step: "place_in_row_js ex (n # ns) cx cy pos = place_in_row_js ex ns (cx + 100) cy ?pos"
    by simp
  have b: "\<forall>k w. object_get ?pos k = Some w \<longrightarrow> entry_ok ex k w"
    using Cons.prems placed_entry_ok [of ex n cx cy] by (auto simp: object_get_set)
  have c: "object_get ?pos (id_n n) \<noteq> None"
    "\<forall>k. object_get pos k \<noteq> None \<longrightarrow> object_get ?pos k \<noteq> None"
    by (simp_all add: object_get_set)
  from Cons.IH [OF b, of "cx + 100"] c show ?case
    unfolding step by auto
qed

lemma layout_js_entry:
  assumes n: "n \<in> set ns"
  shows "\<exists>w. object_get (assignPositionsToNodes_js rnd ns ex) (id_n n) = Some w
           \<and> entry_ok ex (id_n n) w"
proof (cases "find_root ns")
  case None
  have "\<forall>k w. object_get empty_object k = Some w \<longrightarrow> entry_ok ex k w"
    by simp
  from place_in_row_js_ok [OF this, of ns 50 50] n None show ?thesis
    by (auto simp: assignPositionsToNodes_js_def)
next
  case (Some r)
  let ?s = "bfs_loop_js ns ex (initial_state_js r)"
  have "state_ok ex ?s" by (rule bfs_loop_js_ok) (rule initial_state_js_ok)
  then have a: "\<forall>k\<in>assigned_js ?s. object_get (positionedNodes_js ?s) k \<noteq> None"
    and b: "\<forall>k w. object_get (positionedNodes_js ?s) k = Some w \<longrightarrow> entry_ok ex k w"
    by (simp_all add: state_ok_def)
  from place_missed_js_ok [OF a b, of ns rnd 0] n Some show ?thesis
    by (auto simp: assignPositionsToNodes_js_def Let_def)
qed

lemmas layout_js_eval =
  assignPositionsToNodes_js_def find_root_def no_parent_def initial_state_js_def
  bfs_loop_js.simps bfs_step_js_def children_of_def place_child_js_def Let_def
  object_get_def object_set_def empty_object_def
  existing_node_js_def existing_x_or_js_def existing_y_or_js_def
  NODE_AREA_WIDTH_def NODE_AREA_HEIGHT_def NODE_OFFSET_X_def NODE_OFFSET_Y_def

section \<open>The claims\<close>

text \<open>
  Claim C4. The timer effect computes a remaining time exactly for the sessions that pass
  its guard, and these have a start time. For every such session and every instant
  \<open>now\<close>, the remaining time computed is \<open>max 0 (limit - (now - start))\<close>, and its
  rounding is what the effect shows; for every session the remaining time is never
  negative and never grows with \<open>now\<close>.
\<close>

theorem remaining_time_formula:
  "(gameState c = Some gs \<longrightarrow>
      timer_effect now c
        = (if timer_runs gs then calculateTimeLeft now gs c else c\<lparr>timeLeft := None\<rparr>))
   \<and> (timer_runs gs \<longrightarrow>
        (\<exists>s. start_time gs = Some s
           \<and> remaining gs now = max 0 (time_limit_seconds gs - (now - s))
           \<and> timeLeft (calculateTimeLeft now gs c)
               = Some (math_round (max 0 (time_limit_seconds gs - (now - s))))))
   \<and> 0 \<le> remaining gs now
   \<and> (t1 \<le> t2 \<longrightarrow> remaining gs t2 \<le> remaining gs t1)"
proof (intro conjI impI)
  assume "gameState c = Some gs"
  then show "timer_effect now c
        = (if timer_runs gs then calculateTimeLeft now gs c else c\<lparr>timeLeft := None\<rparr>)"
    by (rule timer_effect_runs)
next
  assume "timer_runs gs"
  from timer_runs_started [OF this] obtain s where s: "start_time gs = Some s" "s \<noteq> 0"
    by blast
  from remaining_started [OF s, of now] calculateTimeLeft_timeLeft [of now gs c] s(1)
  show "\<exists>s. start_time gs = Some s
           \<and> remaining gs now = max 0 (time_limit_seconds gs - (now - s))
           \<and> timeLeft (calculateTimeLeft now gs c)
               = Some (math_round (max 0 (time_limit_seconds gs - (now - s))))"
    by simp
next
  show "0 \<le> remaining gs now" by (rule remaining_nonneg)
next
  assume "t1 \<le> t2"
  then show "remaining gs t2 \<le> remaining gs t1" by (rule remaining_antimono)
qed

theorem remaining_time_formula_witness:
  "gameState (component_example (session_example 60 (Some 1000) True))
     = Some (session_example 60 (Some 1000) True)
   \<and> timer_runs (session_example 60 (Some 1000) True)
   \<and> timer_effect 1020 (component_example (session_example 60 (Some 1000) True))
       = calculateTimeLeft 1020 (session_example 60 (Some 1000) True)
           (component_example (session_example 60 (Some 1000) True))
   \<and> start_time (session_example 60 (Some 1000) True) = Some 1000
   \<and> remaining (session_example 60 (Some 1000) True) 1020 = 40
   \<and> timeLeft (calculateTimeLeft 1020 (session_example 60 (Some 1000) True)
        (component_example (session_example 60 (Some 1000) True))) = Some 40
   \<and> 0 \<le> remaining (session_example 60 (Some 1000) True) 1020
   \<and> (1020::real) \<le> 1030
   \<and> remaining (session_example 60 (Some 1000) True) 1030
        \<le> remaining (session_example 60 (Some 1000) True) 1020"
proof -
  let ?g = "session_example 60 (Some 1000) True"
  have r: "timer_runs ?g" by (simp add: timer_runs_def session_example_def)
  have g: "gameState (component_example ?g) = Some ?g" by (simp add: component_example_def)
  have s: "start_time ?g = Some 1000" "time_limit_seconds ?g = 60"
    by (simp_all add: session_example_def)
  have m: "math_round 40 = 40" by (simp add: math_round_def)
  from remaining_time_formula [of "component_example ?g" ?g 1020 1020 1030] r g s m
  show ?thesis by simp
qed




text \<open>
  Claim C1, amended. The root found by the layout is always placed at the anchor
  \<open>(250, 50)\<close>, whatever the existing positions say. Every other input node whose id has
  an existing position gets exactly the coordinates stored there. Hence, when the existing
  positions are themselves the result of an earlier layout with the same root, as after
  one accepted connection, every node of the earlier layout keeps its coordinates.
\<close>

theorem position_stability:
  "(find_root ns = Some r \<longrightarrow>
      assignPositionsToNodes rnd ns ex (id_n r) = Some (with_position r 250 50))
   \<and> (n \<in> set ns \<and> existing_node ex (id_n n) = Some w
        \<and> (\<forall>r. find_root ns = Some r \<longrightarrow> id_n n \<noteq> id_n r) \<longrightarrow>
        (\<exists>w'. assignPositionsToNodes rnd ns ex (id_n n) = Some w'
               \<and> x_n w' = x_n w \<and> y_n w' = y_n w))
   \<and> (n \<in> set ns \<and> n \<in> set ns' \<and> find_root ns' = find_root ns \<longrightarrow>
        (\<exists>w w'. assignPositionsToNodes rnd ns ex0 (id_n n) = Some w
           \<and> assignPositionsToNodes rnd' ns' (Some (assignPositionsToNodes rnd ns ex0)) (id_n n)
               = Some w'
           \<and> x_n w' = x_n w \<and> y_n w' = y_n w))"
proof (intro conjI impI)
  assume "find_root ns = Some r"
  then show "assignPositionsToNodes rnd ns ex (id_n r) = Some (with_position r 250 50)"
    by (rule layout_root_anchor)
next
  assume a: "n \<in> set ns \<and> existing_node ex (id_n n) = Some w
        \<and> (\<forall>r. find_root ns = Some r \<longrightarrow> id_n n \<noteq> id_n r)"
  from layout_has_entry [of n ns rnd ex] a obtain w'
    where w': "assignPositionsToNodes rnd ns ex (id_n n) = Some w'" by blast
  from layout_keeps_existing [OF w'] a have "keeps_existing ex (id_n n) w'" by blast
  with a w' show "\<exists>w'. assignPositionsToNodes rnd ns ex (id_n n) = Some w'
               \<and> x_n w' = x_n w \<and> y_n w' = y_n w"
    by (simp add: keeps_existing_def)
next
  assume "n \<in> set ns \<and> n \<in> set ns' \<and> find_root ns' = find_root ns"
  then show "\<exists>w w'. assignPositionsToNodes rnd ns ex0 (id_n n) = Some w
           \<and> assignPositionsToNodes rnd' ns' (Some (assignPositionsToNodes rnd ns ex0)) (id_n n)
               = Some w'
           \<and> x_n w' = x_n w \<and> y_n w' = y_n w"
    using layout_incremental by blast
qed

theorem position_stability_witness:
  "find_root ocean_nodes = Some (node_example ''ocean'' None)
   \<and> assignPositionsToNodes draws_low ocean_nodes tide_moved ''ocean''
       = Some (with_position (node_example ''ocean'' None) 250 50)
   \<and> node_example ''tide'' (Some ''ocean'') \<in> set ocean_nodes
   \<and> existing_node tide_moved ''tide'' = Some (with_position (node_example ''tide'' (Some ''ocean'')) 7 9)
   \<and> (\<exists>w'. assignPositionsToNodes draws_low ocean_nodes tide_moved ''tide'' = Some w'
         \<and> x_n w' = 7 \<and> y_n w' = 9)
   \<and> node_example ''tide'' (Some ''ocean'') \<in> set stray_nodes
   \<and> find_root stray_nodes = find_root ocean_nodes
   \<and> (\<exists>w w'. assignPositionsToNodes draws_low ocean_nodes None ''tide'' = Some w
         \<and> assignPositionsToNodes draws_mid stray_nodes
              (Some (assignPositionsToNodes draws_low ocean_nodes None)) ''tide'' = Some w'
         \<and> x_n w' = x_n w \<and> y_n w' = y_n w)"
proof -
  have r: "find_root ocean_nodes = Some (node_example ''ocean'' None)"
    by (simp add: find_root_def ocean_nodes_def no_parent_def node_example_def)
  have r': "find_root stray_nodes = find_root ocean_nodes"
    by (simp add: find_root_def stray_nodes_def ocean_nodes_def no_parent_def node_example_def)
  have m: "node_example ''tide'' (Some ''ocean'') \<in> set ocean_nodes"
    "node_example ''tide'' (Some ''ocean'') \<in> set stray_nodes"
    by (simp_all add: stray_nodes_def ocean_nodes_def)
  have e: "existing_node tide_moved ''tide''
             = Some (with_position (node_example ''tide'' (Some ''ocean'')) 7 9)"
    by (simp add: existing_node_def tide_moved_def)
  have nr: "\<forall>r. find_root ocean_nodes = Some r \<longrightarrow> id_n (node_example ''tide'' (Some ''ocean'')) \<noteq> id_n r"
    using r by (simp add: node_example_def)
  have i: "id_n (node_example ''tide'' (Some ''ocean'')) = ''tide''"
       "id_n (node_example ''ocean'' None) = ''ocean''"
    by (simp_all add: node_example_def)
  from position_stability [of ocean_nodes "node_example ''ocean'' None" draws_low tide_moved
      "node_example ''tide'' (Some ''ocean'')" "with_position (node_example ''tide'' (Some ''ocean'')) 7 9"
      stray_nodes None draws_mid] r r' m e nr
  show ?thesis unfolding i by simp
qed

text \<open>
  The claim as first stated fails for the root: with an existing position \<open>(0, 0)\<close> it is
  still placed at \<open>(250, 50)\<close>.
\<close>

theorem position_stability_counterexample:
  "existing_node moved_root ''ocean'' = Some (with_position (node_example ''ocean'' None) 0 0)
   \<and> assignPositionsToNodes draws_low [node_example ''ocean'' None] moved_root ''ocean''
       = Some (with_position (node_example ''ocean'' None) 250 50)
   \<and> x_n (with_position (node_example ''ocean'' None) 0 0) = 0
   \<and> x_n (with_position (node_example ''ocean'' None) 250 50) = 250"
  by (simp add: layout_eval moved_root_def node_example_def)

text \<open>
  Claim C2, amended. Two runs of the layout on the same nodes and the same existing
  positions return the same map whenever every node that is not reachable from the root
  by parent links already has an existing position; in particular when all nodes are
  reachable, and when no root is found. (A node missed by the traversal and without an
  existing position is placed by \<^verbatim>\<open>Math.random\<close>, so the two runs may differ on it.)
\<close>

theorem layout_deterministic:
  assumes "\<And>r n. find_root ns = Some r \<Longrightarrow> n \<in> set ns \<Longrightarrow>
             id_n n \<in> reachable_ids ns (id_n r) \<or> existing_node ex (id_n n) \<noteq> None"
  shows "assignPositionsToNodes rnd1 ns ex = assignPositionsToNodes rnd2 ns ex"
proof (cases "find_root ns")
  case None
  then show ?thesis by (simp add: assignPositionsToNodes_def)
next
  case (Some r)
  let ?s = "traversal ns ex r"
  have "\<forall>n\<in>set ns. id_n n \<in> assigned ?s \<or> existing_node ex (id_n n) \<noteq> None"
    using assms [OF Some] by (simp add: traversal_assigned_reachable)
  from place_missed_no_draw [OF this, of rnd1 "positionedNodes ?s" 0 rnd2 0] Some
  show ?thesis by (simp add: assignPositionsToNodes_def Let_def)
qed

theorem layout_deterministic_witness:
  "find_root ocean_nodes = Some (node_example ''ocean'' None)
   \<and> id_n ` set ocean_nodes \<subseteq> reachable_ids ocean_nodes ''ocean''
   \<and> assignPositionsToNodes draws_low ocean_nodes None
       = assignPositionsToNodes draws_mid ocean_nodes None"
proof -
  have r: "find_root ocean_nodes = Some (node_example ''ocean'' None)"
    by (simp add: find_root_def ocean_nodes_def no_parent_def node_example_def)
  have ids: "id_n ` set ocean_nodes = {''ocean'', ''wave'', ''tide'', ''surf''}"
    by (auto simp: ocean_nodes_def node_example_def)
  have sub: "id_n ` set ocean_nodes \<subseteq> reachable_ids ocean_nodes ''ocean''"
    unfolding ids by (rule ocean_reachable)
  have "assignPositionsToNodes draws_low ocean_nodes None
       = assignPositionsToNodes draws_mid ocean_nodes None"
  proof (rule layout_deterministic)
    fix r' n assume "find_root ocean_nodes = Some r'" "n \<in> set ocean_nodes"
    with r sub have "id_n n \<in> reachable_ids ocean_nodes (id_n r')"
      by (auto simp: node_example_def)
    then show "id_n n \<in> reachable_ids ocean_nodes (id_n r') \<or> existing_node None (id_n n) \<noteq> None"
      by simp
  qed
  with r sub show ?thesis by simp
qed

text \<open>
  The claim as first stated fails for a node whose parent is missing: its coordinates are
  the random draws scaled by the area, here \<open>(0, 0)\<close> in one run and \<open>(250, 200)\<close>
  in the other.
\<close>

theorem layout_deterministic_counterexample:
  "assignPositionsToNodes draws_low stray_nodes None ''lost''
     = Some (with_position (node_example ''lost'' (Some ''nowhere'')) 0 0)
   \<and> assignPositionsToNodes draws_mid stray_nodes None ''lost''
     = Some (with_position (node_example ''lost'' (Some ''nowhere'')) 250 200)
   \<and> x_n (with_position (node_example ''lost'' (Some ''nowhere'')) 0 0) = 0
   \<and> x_n (with_position (node_example ''lost'' (Some ''nowhere'')) 250 200) = 250"
  by (simp add: layout_eval stray_nodes_def ocean_nodes_def node_example_def draws_low_def draws_mid_def)

text \<open>
  Claim C10. The queue of the traversal does not depend on the existing positions: it is
  the queue of a layout started afresh, and each entry carries, as \<open>parentX\<close> and
  \<open>parentY\<close> for the children of its node, the coordinates of that node in the fresh
  layout. So a reachable node that has no existing position is placed exactly where the
  fresh layout places it, also under a parent whose preserved position is elsewhere.
\<close>

theorem fresh_parent_positions:
  assumes "find_root ns = Some r"
  shows "queue (traversal ns ex r) = queue (traversal ns None r)
   \<and> (\<forall>q\<in>set (queue (traversal ns ex r)).
         \<exists>w. assignPositionsToNodes rnd0 ns None (nodeId q) = Some w
            \<and> x_n w = parentX q \<and> y_n w = parentY q)
   \<and> (\<forall>k\<in>reachable_ids ns (id_n r). existing_node ex k = None \<longrightarrow>
         assignPositionsToNodes rnd ns ex k = assignPositionsToNodes rnd0 ns None k)"
proof (intro conjI ballI impI)
  show q: "queue (traversal ns ex r) = queue (traversal ns None r)"
    using traversal_same [of ex ns r] by (simp add: same_traversal_def)
  fix e assume "e \<in> set (queue (traversal ns ex r))"
  with q have e: "e \<in> set (queue (traversal ns None r))" by simp
  then have "nodeId e \<in> assigned (traversal ns None r)"
    by (simp add: traversal_assigned_queue)
  from layout_assigned_kept [OF assms this] fresh_queue_positions [of ns r] e
  show "\<exists>w. assignPositionsToNodes rnd0 ns None (nodeId e) = Some w
            \<and> x_n w = parentX e \<and> y_n w = parentY e"
    by simp
next
  fix k assume k: "k \<in> reachable_ids ns (id_n r)" "existing_node ex k = None"
  from k(1) have a: "k \<in> assigned (traversal ns ex r)" "k \<in> assigned (traversal ns None r)"
    by (simp_all add: traversal_assigned_reachable)
  from traversal_same [of ex ns r] k(2)
  have "positionedNodes (traversal ns ex r) k = positionedNodes (traversal ns None r) k"
    by (simp add: same_traversal_def)
  with layout_assigned_kept [OF assms a(1)] layout_assigned_kept [OF assms a(2)]
  show "assignPositionsToNodes rnd ns ex k = assignPositionsToNodes rnd0 ns None k" by simp
qed

theorem fresh_parent_positions_witness:
  "find_root ocean_nodes = Some (node_example ''ocean'' None)
   \<and> queue (traversal ocean_nodes wave_moved (node_example ''ocean'' None))
       = queue (traversal ocean_nodes None (node_example ''ocean'' None))
   \<and> ''surf'' \<in> reachable_ids ocean_nodes (id_n (node_example ''ocean'' None))
   \<and> existing_node wave_moved ''surf'' = None
   \<and> assignPositionsToNodes draws_low ocean_nodes wave_moved ''surf''
       = assignPositionsToNodes draws_mid ocean_nodes None ''surf''
   \<and> assignPositionsToNodes draws_low ocean_nodes wave_moved ''wave''
       = Some (with_position (node_example ''wave'' (Some ''ocean'')) 7 9)
   \<and> assignPositionsToNodes draws_low ocean_nodes wave_moved ''surf''
       = Some (with_position (node_example ''surf'' (Some ''wave'')) 275 (125 + 75 * sqrt 3 / 2))"
proof -
  have r: "find_root ocean_nodes = Some (node_example ''ocean'' None)"
    by (simp add: find_root_def ocean_nodes_def no_parent_def node_example_def)
  have s: "''surf'' \<in> reachable_ids ocean_nodes (id_n (node_example ''ocean'' None))"
    using ocean_reachable by (simp add: node_example_def)
  have e: "existing_node wave_moved ''surf'' = None"
    by (simp add: existing_node_def wave_moved_def)
  have w: "assignPositionsToNodes draws_low ocean_nodes wave_moved ''wave''
       = Some (with_position (node_example ''wave'' (Some ''ocean'')) 7 9)"
    by (simp add: layout_eval ocean_nodes_def node_example_def wave_moved_def)
  have f: "assignPositionsToNodes draws_low ocean_nodes wave_moved ''surf''
       = Some (with_position (node_example ''surf'' (Some ''wave'')) 275 (125 + 75 * sqrt 3 / 2))"
    by (simp add: layout_eval ocean_nodes_def node_example_def wave_moved_def cos_60 sin_60)
  from fresh_parent_positions [OF r, of wave_moved draws_mid draws_low] s e w f r
  show ?thesis by simp
qed



text \<open>
  Claim C6. For every input with distinct, non-empty ids in which the root has exactly
  three children and there are no existing positions, the three children get pairwise
  distinct positions that are not on one line, each with a larger \<open>y\<close> than the root.
\<close>

theorem fan_out:
  assumes "distinct (map id_n ns)" and "[] \<notin> set (map id_n ns)"
    and "find_root ns = Some r"
    and "children_of ns (id_n r) = [a, b, c]"
  shows "\<exists>pr pa pb pc.
      assignPositionsToNodes rnd ns None (id_n r) = Some pr
    \<and> assignPositionsToNodes rnd ns None (id_n a) = Some pa
    \<and> assignPositionsToNodes rnd ns None (id_n b) = Some pb
    \<and> assignPositionsToNodes rnd ns None (id_n c) = Some pc
    \<and> (x_n pa, y_n pa) \<noteq> (x_n pb, y_n pb)
    \<and> (x_n pa, y_n pa) \<noteq> (x_n pc, y_n pc)
    \<and> (x_n pb, y_n pb) \<noteq> (x_n pc, y_n pc)
    \<and> (x_n pb - x_n pa) * (y_n pc - y_n pa) \<noteq> (y_n pb - y_n pa) * (x_n pc - x_n pa)
    \<and> y_n pr < y_n pa \<and> y_n pr < y_n pb \<and> y_n pr < y_n pc"
proof -
  let ?e = "\<lparr>nodeId = id_n r, parentX = 250, parentY = 50, depth = 0\<rparr>"
  have e: "?e \<in> set (queue (traversal ns None r))" by (rule traversal_root_entry)
  have cs: "children_of ns (nodeId ?e) = [a, b, c]" using assms(4) by simp
  have l: "length [a, b, c] = 3" by simp
  note pos = layout_child_position [OF assms(1) ids_nonempty [OF assms(2)] assms(3) e, of _ rnd,
      unfolded cs l]
  have pr: "assignPositionsToNodes rnd ns None (id_n r) = Some (with_position r 250 50)"
    using assms(3) by (rule layout_root_anchor)
  have pa: "assignPositionsToNodes rnd ns None (id_n a)
              = Some (with_position a (250 + 25 * sqrt 2) (50 + 75 * sqrt 2 / 2))"
    using pos [of 0] by (simp add: placed_def fan_positions)
  have pb: "assignPositionsToNodes rnd ns None (id_n b) = Some (with_position b 250 125)"
    using pos [of 1] by (simp add: placed_def fan_positions del: One_nat_def)
  have pc: "assignPositionsToNodes rnd ns None (id_n c)
              = Some (with_position c (250 - 25 * sqrt 2) (50 + 75 * sqrt 2 / 2))"
    using pos [of 2] by (simp add: placed_def fan_positions)
  have s: "sqrt 2 \<noteq> 0" "sqrt 2 \<noteq> 2" "0 < sqrt 2" using sqrt2_facts by simp_all
  have col: "(250 - (250 + 25 * sqrt 2)) * ((50 + 75 * sqrt 2 / 2) - (50 + 75 * sqrt 2 / 2))
             \<noteq> (125 - (50 + 75 * sqrt 2 / 2)) * ((250 - 25 * sqrt 2) - (250 + 25 * sqrt 2))"
  proof -
    have "(125 - (50 + 75 * sqrt 2 / 2)) * ((250 - 25 * sqrt 2) - (250 + 25 * sqrt 2))
            = (75 / 2) * (2 - sqrt 2) * (- 50 * sqrt 2)"
      by (simp add: algebra_simps)
    moreover have "(75 / 2) * (2 - sqrt 2) * (- 50 * sqrt 2) \<noteq> 0" using s by simp
    ultimately show ?thesis by simp
  qed
  show ?thesis
    apply (rule exI [of _ "with_position r 250 50"])
    apply (rule exI [of _ "with_position a (250 + 25 * sqrt 2) (50 + 75 * sqrt 2 / 2)"])
    apply (rule exI [of _ "with_position b 250 125"])
    apply (rule exI [of _ "with_position c (250 - 25 * sqrt 2) (50 + 75 * sqrt 2 / 2)"])
    using pr pa pb pc s col by simp
qed

theorem fan_out_witness:
  "distinct (map id_n fan_nodes) \<and> [] \<notin> set (map id_n fan_nodes)
   \<and> find_root fan_nodes = Some (node_example ''ocean'' None)
   \<and> children_of fan_nodes ''ocean''
       = [node_example ''wave'' (Some ''ocean''), node_example ''tide'' (Some ''ocean''),
          node_example ''reef'' (Some ''ocean'')]
   \<and> (\<exists>pr pa pb pc.
      assignPositionsToNodes draws_low fan_nodes None ''ocean'' = Some pr
    \<and> assignPositionsToNodes draws_low fan_nodes None ''wave'' = Some pa
    \<and> assignPositionsToNodes draws_low fan_nodes None ''tide'' = Some pb
    \<and> assignPositionsToNodes draws_low fan_nodes None ''reef'' = Some pc
    \<and> (x_n pa, y_n pa) \<noteq> (x_n pb, y_n pb)
    \<and> (x_n pa, y_n pa) \<noteq> (x_n pc, y_n pc)
    \<and> (x_n pb, y_n pb) \<noteq> (x_n pc, y_n pc)
    \<and> (x_n pb - x_n pa) * (y_n pc - y_n pa) \<noteq> (y_n pb - y_n pa) * (x_n pc - x_n pa)
    \<and> y_n pr < y_n pa \<and> y_n pr < y_n pb \<and> y_n pr < y_n pc)"
proof -
  have d: "distinct (map id_n fan_nodes)" and n: "[] \<notin> set (map id_n fan_nodes)"
    by (simp_all add: fan_nodes_def node_example_def)
  have r: "find_root fan_nodes = Some (node_example ''ocean'' None)"
    by (simp add: find_root_def fan_nodes_def no_parent_def node_example_def)
  have cs: "children_of fan_nodes (id_n (node_example ''ocean'' None))
       = [node_example ''wave'' (Some ''ocean''), node_example ''tide'' (Some ''ocean''),
          node_example ''reef'' (Some ''ocean'')]"
    by (simp add: children_of_def fan_nodes_def node_example_def)
  have i: "id_n (node_example k p) = k" for k p by (simp add: node_example_def)
  from fan_out [OF d n r cs, of draws_low] d n r cs show ?thesis
    unfolding i by blast
qed




text \<open>
  Claim C8, amended. A proposal that is refused by the guard issues no request and leaves
  the session as it is. A proposal that the backend rejects (a response that is not
  \<^verbatim>\<open>ok\<close>, or an exception) leaves the nodes, the connections, the score and every other
  field of the session as they are, except \<open>is_active\<close>, which becomes false when the
  rejection is the status \<open>400\<close> with the detail \<^verbatim>\<open>Time limit exceeded\<close>.
\<close>

theorem rejection_frame:
  "gameState (fst (submit_begin c)) = gameState c
   \<and> (snd (submit_begin c) = None \<longrightarrow>
        handleAddConnection backend rnd c = (fst (submit_begin c), []))
   \<and> (\<not> accepted resp \<longrightarrow>
        gameState (submit_end gs resp rnd c)
          = map_option (\<lambda>g. g\<lparr>is_active := is_active g \<and> \<not> time_limit_exceeded resp\<rparr>)
              (gameState c))
   \<and> (\<not> accepted resp \<and> gameState c = Some g \<longrightarrow>
        (\<exists>g'. gameState (submit_end gs resp rnd c) = Some g'
           \<and> nodes g' = nodes g \<and> connections g' = connections g \<and> score g' = score g
           \<and> is_active g' = (is_active g \<and> \<not> time_limit_exceeded resp)))
   \<and> (snd (submit_begin c') = Some (gs', req) \<and> \<not> accepted (backend' req) \<longrightarrow>
        gameState (fst (handleAddConnection backend' rnd c'))
          = map_option
              (\<lambda>g. g\<lparr>is_active := is_active g \<and> \<not> time_limit_exceeded (backend' req)\<rparr>)
              (gameState c'))"
proof (intro conjI impI)
  show "gameState (fst (submit_begin c)) = gameState c" by (rule submit_begin_session)
next
  assume "snd (submit_begin c) = None"
  then show "handleAddConnection backend rnd c = (fst (submit_begin c), [])"
    by (cases "submit_begin c") (simp add: handleAddConnection_def)
next
  assume "\<not> accepted resp"
  then show "gameState (submit_end gs resp rnd c)
          = map_option (\<lambda>g. g\<lparr>is_active := is_active g \<and> \<not> time_limit_exceeded resp\<rparr>)
              (gameState c)"
    by (rule submit_end_rejected)
next
  assume a: "\<not> accepted resp \<and> gameState c = Some g"
  with submit_end_rejected [of resp gs rnd c]
  have "gameState (submit_end gs resp rnd c)
          = Some (g\<lparr>is_active := is_active g \<and> \<not> time_limit_exceeded resp\<rparr>)"
    by simp
  then show "\<exists>g'. gameState (submit_end gs resp rnd c) = Some g'
           \<and> nodes g' = nodes g \<and> connections g' = connections g \<and> score g' = score g
           \<and> is_active g' = (is_active g \<and> \<not> time_limit_exceeded resp)"
    by simp
next
  assume a: "snd (submit_begin c') = Some (gs', req) \<and> \<not> accepted (backend' req)"
  then have "handleAddConnection backend' rnd c'
      = (submit_end gs' (backend' req) rnd (fst (submit_begin c')), [req])"
    by (cases "submit_begin c'") (simp add: handleAddConnection_def)
  with a submit_end_rejected [of "backend' req" gs' rnd "fst (submit_begin c')"]
  show "gameState (fst (handleAddConnection backend' rnd c'))
          = map_option
              (\<lambda>g. g\<lparr>is_active := is_active g \<and> \<not> time_limit_exceeded (backend' req)\<rparr>)
              (gameState c')"
    by (simp add: submit_begin_session)
qed

theorem rejection_frame_witness:
  "gameState (fst (submit_begin (component screen_expired))) = gameState (component screen_expired)
   \<and> snd (submit_begin (component screen_expired)) = None
   \<and> handleAddConnection backend_time_up draws_low (component screen_expired)
       = (fst (submit_begin (component screen_expired)), [])
   \<and> \<not> accepted (Error_response 404 None)
   \<and> gameState (component screen_expired) = Some (session_example 60 (Some 1000) False)
   \<and> gameState (submit_end (session_example 60 (Some 1000) True) (Error_response 404 None)
         draws_low (component screen_expired))
       = Some (session_example 60 (Some 1000) False)
   \<and> snd (submit_begin (component screen_example))
       = Some (session_example 60 (Some 1000) True,
               \<lparr>request_game_id = ''g1'', parent_node_id = ''ocean'', new_word = ''wave''\<rparr>)
   \<and> \<not> accepted (backend_time_up
         \<lparr>request_game_id = ''g1'', parent_node_id = ''ocean'', new_word = ''wave''\<rparr>)
   \<and> gameState (fst (handleAddConnection backend_time_up draws_low (component screen_example)))
       = Some (session_example 60 (Some 1000) False)"
proof -
  let ?c = "component screen_example"
  let ?x = "component screen_expired"
  let ?g = "session_example 60 (Some 1000) True"
  let ?req = "\<lparr>request_game_id = ''g1'', parent_node_id = ''ocean'', new_word = ''wave''\<rparr>"
  have b0: "snd (submit_begin ?x) = None"
    by (simp add: screen_eval)
  have b1: "snd (submit_begin ?c) = Some (?g, ?req)"
    by (simp add: screen_eval)
  have r: "\<not> accepted (Error_response 404 None)" "\<not> accepted (backend_time_up ?req)"
    by (simp_all add: accepted_def backend_time_up_def)
  have g: "gameState ?c = Some ?g" "gameState ?x = Some (session_example 60 (Some 1000) False)"
    by (simp_all add: screen_example_def screen_expired_def component_example_def)
  have t: "\<not> time_limit_exceeded (Error_response 404 None)"
    "time_limit_exceeded (backend_time_up ?req)"
    by (simp_all add: time_limit_exceeded_def backend_time_up_def)
  have s: "?g\<lparr>is_active := False\<rparr> = session_example 60 (Some 1000) False"
    "(session_example 60 (Some 1000) False)\<lparr>is_active := False\<rparr>
       = session_example 60 (Some 1000) False"
    by (simp_all add: session_example_def)
  from rejection_frame [where c = ?x and backend = backend_time_up and rnd = draws_low
      and resp = "Error_response 404 None" and gs = ?g
      and g = "session_example 60 (Some 1000) False"
      and c' = ?c and gs' = ?g and req = ?req and backend' = backend_time_up] b0 b1 r g t s
  show ?thesis by simp
qed

text \<open>
  The claim as first stated fails for that rejection: the proposal is sent, rejected with
  \<^verbatim>\<open>Time limit exceeded\<close>, and the session that was active is handed back inactive.
\<close>

theorem rejection_frame_counterexample:
  "snd (handleAddConnection backend_time_up draws_low (component screen_example))
     = [\<lparr>request_game_id = ''g1'', parent_node_id = ''ocean'', new_word = ''wave''\<rparr>]
   \<and> \<not> accepted (backend_time_up
         \<lparr>request_game_id = ''g1'', parent_node_id = ''ocean'', new_word = ''wave''\<rparr>)
   \<and> map_option is_active (gameState (component screen_example)) = Some True
   \<and> map_option is_active
        (gameState (fst (handleAddConnection backend_time_up draws_low (component screen_example))))
     = Some False"
  by (simp add: screen_eval)

text \<open>
  Claim C9. For every submission to the board, the moves counter grows by exactly \<open>1\<close>
  if and only if the callback \<open>onNodeAdded\<close> returns true; then one node with the new
  label and one edge from the parent to it are appended. A submission the callback
  refuses leaves the moves counter, the nodes and the edges as they are.
\<close>

theorem moves_count_accepted:
  "(moves (handleAddNode onNodeAdded rnd l p s) = moves s + 1) = onNodeAdded l p
   \<and> (onNodeAdded l p \<longrightarrow>
        (\<exists>n e. nodes_b (handleAddNode onNodeAdded rnd l p s) = nodes_b s @ [n] \<and> label n = l
           \<and> edges_b (handleAddNode onNodeAdded rnd l p s) = edges_b s @ [e]
           \<and> source e = p \<and> target e = id_b n))
   \<and> (\<not> onNodeAdded l' p' \<longrightarrow>
        moves (handleAddNode onNodeAdded rnd l' p' s) = moves s
        \<and> nodes_b (handleAddNode onNodeAdded rnd l' p' s) = nodes_b s
        \<and> edges_b (handleAddNode onNodeAdded rnd l' p' s) = edges_b s)"
proof (intro conjI impI)
  show "(moves (handleAddNode onNodeAdded rnd l p s) = moves s + 1) = onNodeAdded l p"
    by (cases "onNodeAdded l p") (simp_all add: handleAddNode_accepted handleAddNode_rejected)
next
  assume "onNodeAdded l p"
  then show "\<exists>n e. nodes_b (handleAddNode onNodeAdded rnd l p s) = nodes_b s @ [n] \<and> label n = l
           \<and> edges_b (handleAddNode onNodeAdded rnd l p s) = edges_b s @ [e]
           \<and> source e = p \<and> target e = id_b n"
    by (simp add: handleAddNode_def getNodeId_def Let_def)
next
  assume "\<not> onNodeAdded l' p'"
  then show "moves (handleAddNode onNodeAdded rnd l' p' s) = moves s"
    "nodes_b (handleAddNode onNodeAdded rnd l' p' s) = nodes_b s"
    "edges_b (handleAddNode onNodeAdded rnd l' p' s) = edges_b s"
    by (simp_all add: handleAddNode_rejected)
qed

theorem moves_count_accepted_witness:
  "refuses_rock ''wave'' ''StartNode''
   \<and> moves (handleAddNode refuses_rock draws_mid ''wave'' ''StartNode'' board_example) = 1
   \<and> nodes_b (handleAddNode refuses_rock draws_mid ''wave'' ''StartNode'' board_example)
       = nodes_b board_example
           @ [\<lparr>id_b = ''node_1'', label = ''wave'', position = (250, 130),
                type_b = ''mindMapNode''\<rparr>]
   \<and> edges_b (handleAddNode refuses_rock draws_mid ''wave'' ''StartNode'' board_example)
       = [\<lparr>edge_id = ''edge_StartNode-node_1'', source = ''StartNode'', target = ''node_1''\<rparr>]
   \<and> \<not> refuses_rock ''rock'' ''StartNode''
   \<and> moves (handleAddNode refuses_rock draws_mid ''rock'' ''StartNode'' board_example)
       = moves board_example
   \<and> nodes_b (handleAddNode refuses_rock draws_mid ''rock'' ''StartNode'' board_example)
       = nodes_b board_example
   \<and> edges_b (handleAddNode refuses_rock draws_mid ''rock'' ''StartNode'' board_example)
       = edges_b board_example"
proof -
  have a: "refuses_rock ''wave'' ''StartNode''" and r: "\<not> refuses_rock ''rock'' ''StartNode''"
    by (simp_all add: refuses_rock_def)
  have n: "nodes_b (handleAddNode refuses_rock draws_mid ''wave'' ''StartNode'' board_example)
       = nodes_b board_example
           @ [\<lparr>id_b = ''node_1'', label = ''wave'', position = (250, 130),
                type_b = ''mindMapNode''\<rparr>]"
    and e: "edges_b (handleAddNode refuses_rock draws_mid ''wave'' ''StartNode'' board_example)
       = [\<lparr>edge_id = ''edge_StartNode-node_1'', source = ''StartNode'', target = ''node_1''\<rparr>]"
    by (simp_all add: handleAddNode_def getNodeId_def Let_def refuses_rock_def board_example_def
        draws_mid_def string_of_nat.simps)
  have m: "moves board_example = 0" by (simp add: board_example_def)
  from moves_count_accepted [of refuses_rock draws_mid "''wave''" "''StartNode''" board_example
      "''rock''" "''StartNode''"] a r n e m
  show ?thesis by simp
qed

end
